theory Spec2Isabelle
  imports Main
begin

section \<open>JavaScript \<open>Map\<close> objects\<close>

text \<open>
  \<^verbatim>\<open>src/web/client.js\<close> keeps all of its tables in JavaScript \<open>Map\<close> objects. A \<open>Map\<close>
  iterates in insertion order, \<open>set\<close> on a key that is present replaces the value and
  keeps the key's position, \<open>set\<close> on a new key appends, \<open>delete\<close> removes the key. The
  order matters to \<open>evictLRU\<close> (it sorts \<open>[...accessTime.entries()]\<close> with a stable sort)
  and to \<open>selectOptimalPeers\<close> (it takes the first keys), so a \<open>Map\<close> is an association
  list in insertion order.
\<close>

type_synonym ('k, 'v) jsmap = "('k \<times> 'v) list"

fun map_set :: "'k \<Rightarrow> 'v \<Rightarrow> ('k, 'v) jsmap \<Rightarrow> ('k, 'v) jsmap" where
  "map_set k v [] = [(k, v)]"
| "map_set k v ((k', v') # m) = (if k' = k then (k, v) # m else (k', v') # map_set k v m)"

definition map_get :: "'k \<Rightarrow> ('k, 'v) jsmap \<Rightarrow> 'v option" where
  "map_get k m = map_of m k"

definition map_has :: "'k \<Rightarrow> ('k, 'v) jsmap \<Rightarrow> bool" where
  "map_has k m = (map_of m k \<noteq> None)"

definition map_delete :: "'k \<Rightarrow> ('k, 'v) jsmap \<Rightarrow> ('k, 'v) jsmap" where
  "map_delete k m = filter (\<lambda>p. fst p \<noteq> k) m"

definition map_keys :: "('k, 'v) jsmap \<Rightarrow> 'k list" where
  "map_keys m = map fst m"

section \<open>\<open>ContentCache\<close> (src/web/client.js, lines 549-596)\<close>

text \<open>
  Content is the string every caller in the repository stores; it is modelled by its
  UTF-8 bytes, so that \<open>new Blob([content]).size\<close> is the length of the list, and the
  JavaScript truthiness test \<open>if (content)\<close> holds exactly for the non-empty string.
  \<open>Date.now()\<close> is an input of each operation (\<open>now\<close>). \<open>currentSize\<close> and \<open>maxSize\<close> are
  JavaScript numbers holding integers; they are modelled as \<open>int\<close>.
\<close>

type_synonym url = string
type_synonym content = string

definition blob_size :: "content \<Rightarrow> int" where
  "blob_size c = int (length c)"

definition truthy :: "content \<Rightarrow> bool" where
  "truthy c = (c \<noteq> [])"

record ContentCache =
  maxSize :: int
  currentSize :: int
  entries :: "(url, content) jsmap"
  accessTime :: "(url, int) jsmap"

definition new_ContentCache :: "int \<Rightarrow> ContentCache" where
  "new_ContentCache C = \<lparr>maxSize = C, currentSize = 0, entries = [], accessTime = []\<rparr>"

text \<open>
  The body of the \<open>for\<close> loop of \<open>evictLRU\<close> over the sorted access times: an entry whose
  content is missing or falsy is skipped; otherwise it is deleted from both maps,
  \<open>currentSize\<close> is decreased, and the loop breaks once \<open>freedSpace >= requiredSpace\<close>.
\<close>

fun evict_loop :: "(url \<times> int) list \<Rightarrow> int \<Rightarrow> int \<Rightarrow> ContentCache \<Rightarrow> ContentCache" where
  "evict_loop [] requiredSpace freedSpace c = c"
| "evict_loop ((u, t) # rest) requiredSpace freedSpace c =
     (case map_get u (entries c) of
        None \<Rightarrow> evict_loop rest requiredSpace freedSpace c
      | Some cont \<Rightarrow>
          if truthy cont then
            (let sz = blob_size cont;
                 c' = c\<lparr>entries := map_delete u (entries c),
                        accessTime := map_delete u (accessTime c),
                        currentSize := currentSize c - sz\<rparr>;
                 freed' = freedSpace + sz
             in if freed' \<ge> requiredSpace then c' else evict_loop rest requiredSpace freed' c')
          else evict_loop rest requiredSpace freedSpace c)"

definition sortedEntries :: "ContentCache \<Rightarrow> (url \<times> int) list" where
  "sortedEntries c = sort_key snd (accessTime c)"

definition evictLRU :: "int \<Rightarrow> ContentCache \<Rightarrow> ContentCache" where
  "evictLRU requiredSpace c = evict_loop (sortedEntries c) requiredSpace 0 c"

definition store :: "int \<Rightarrow> url \<Rightarrow> content \<Rightarrow> ContentCache \<Rightarrow> ContentCache" where
  "store now u cont c =
     (let sz = blob_size cont;
          c1 = (if currentSize c + sz > maxSize c then evictLRU sz c else c)
      in c1\<lparr>entries := map_set u cont (entries c1),
            accessTime := map_set u now (accessTime c1),
            currentSize := currentSize c1 + sz\<rparr>)"

definition get :: "int \<Rightarrow> url \<Rightarrow> ContentCache \<Rightarrow> content option \<times> ContentCache" where
  "get now u c =
     (case map_get u (entries c) of
        None \<Rightarrow> (None, c)
      | Some cont \<Rightarrow>
          if truthy cont then (Some cont, c\<lparr>accessTime := map_set u now (accessTime c)\<rparr>)
          else (None, c))"

text \<open>A sequence of calls on one cache; each call carries the clock value it reads.\<close>

datatype cache_op = Store int url content | Get int url

fun apply_op :: "cache_op \<Rightarrow> ContentCache \<Rightarrow> ContentCache" where
  "apply_op (Store now u cont) c = store now u cont c"
| "apply_op (Get now u) c = snd (get now u c)"

fun run_ops :: "cache_op list \<Rightarrow> ContentCache \<Rightarrow> ContentCache" where
  "run_ops [] c = c"
| "run_ops (x # xs) c = run_ops xs (apply_op x c)"

text \<open>The sum of the byte sizes of the entries that are present.\<close>

definition bytes_of :: "(url, content) jsmap \<Rightarrow> int" where
  "bytes_of m = sum_list (map (\<lambda>p. blob_size (snd p)) m)"

definition stored_size :: "ContentCache \<Rightarrow> int" where
  "stored_size c = bytes_of (entries c)"

text \<open>The calls of a sequence store contents of at most \<open>C\<close> bytes each.\<close>

definition fits :: "int \<Rightarrow> cache_op \<Rightarrow> bool" where
  "fits C x = (case x of Store now u cont \<Rightarrow> blob_size cont \<le> C | Get now u \<Rightarrow> True)"

section \<open>\<open>DeployNetClient\<close> (src/web/client.js, lines 6-547)\<close>

text \<open>
  The browser objects the client drives are outside the repository. An
  \<open>RTCPeerConnection\<close> is modelled by the calls \<^verbatim>\<open>client.js\<close> has made on it, oldest
  first; a data channel by its \<open>readyState\<close>; \<open>JSON.parse(message.payload)\<close> by its
  result, carried in the message. What the client hands to the outside (messages on
  the signaling socket, messages on a data channel, calls of the original \<open>fetch\<close>)
  is logged in the state. An \<open>async\<close> handler is run to completion before the next
  event; the flag \<open>ok\<close> of a signaling event says whether the promises of the browser's
  session primitives resolve (\<open>True\<close>) or the first one awaited rejects (\<open>False\<close>). The
  \<open>Content-Type\<close> header of a response (\<open>getContentType\<close>), the listener table
  (\<open>eventHandlers\<close>), the text of the messages sent on the signaling socket (their type
  is logged) and the \<open>onicecandidate\<close> callback, which only sends on that socket, are
  left out.
\<close>

type_synonym peer_id = string

datatype json = SyntaxError | Value string

record signal =
  msgType :: int
  payload :: json
  senderId :: peer_id

datatype pc_call =
    SetRemoteDescription string
  | CreateAnswer
  | SetLocalDescription
  | CreateDataChannel
  | CreateOffer
  | AddIceCandidate string

type_synonym RTCPeerConnection = "pc_call list"

datatype ready_state = Connecting | Open | Closing | Closed

datatype content_value = Str content | NotAString

datatype peer_message =
    ContentRequest url string
  | ContentResponse url content_value string
  | OtherMessage
  | BadJson

datatype origin_result = OriginResponse nat content | NetworkError

record DeployNetClient =
  clientId :: string
  maxPeers :: int
  peers :: "(peer_id, string) jsmap"
  cache :: ContentCache
  peerConnections :: "(peer_id, RTCPeerConnection) jsmap"
  dataChannels :: "(peer_id, ready_state) jsmap"
  signalingSent :: "int list"
  channelSent :: "(peer_id \<times> peer_message) list"
  originFetched :: "url list"

text \<open>
  The constructor: \<open>cacheSize\<close> and \<open>maxPeers\<close> are the values the configuration
  resolves to.
\<close>

definition new_DeployNetClient :: "string \<Rightarrow> int \<Rightarrow> int \<Rightarrow> DeployNetClient" where
  "new_DeployNetClient cid mp cacheSize =
     \<lparr>clientId = cid, maxPeers = mp, peers = [], cache = new_ContentCache cacheSize,
      peerConnections = [], dataChannels = [], signalingSent = [], channelSent = [],
      originFetched = []\<rparr>"

subsection \<open>The request resolver\<close>

definition sendToPeer :: "peer_id \<Rightarrow> peer_message \<Rightarrow> DeployNetClient \<Rightarrow> DeployNetClient" where
  "sendToPeer p d s =
     (case map_get p (dataChannels s) of
        Some Open \<Rightarrow> s\<lparr>channelSent := channelSent s @ [(p, d)]\<rparr>
      | _ \<Rightarrow> s)"

definition validateContent :: "content_value \<Rightarrow> bool" where
  "validateContent v = (case v of Str c \<Rightarrow> truthy c \<and> length c > 0 | NotAString \<Rightarrow> False)"

definition selectOptimalPeers :: "DeployNetClient \<Rightarrow> nat \<Rightarrow> peer_id list" where
  "selectOptimalPeers s count = take count (map_keys (peers s))"

text \<open>
  \<open>requestContentFromPeer\<close> sends the request and waits: a matching \<open>contentResponse\<close>
  resolves the promise, the 10 s timer rejects it, and a \<open>peerMessage\<close> that does not
  match clears the timer without settling the promise.
\<close>

datatype peer_outcome = Responded content_value | TimedOut | Stalled

datatype peer_result = PeerResponse content peer_id | NoResponse | NeverSettles

fun try_peers :: "peer_id list \<Rightarrow> url \<Rightarrow> (peer_id \<Rightarrow> peer_outcome) \<Rightarrow> DeployNetClient
    \<Rightarrow> peer_result \<times> DeployNetClient" where
  "try_peers [] u reply s = (NoResponse, s)"
| "try_peers (p # ps) u reply s =
     (let s1 = sendToPeer p (ContentRequest u (clientId s)) s
      in case reply p of
           Stalled \<Rightarrow> (NeverSettles, s1)
         | TimedOut \<Rightarrow> try_peers ps u reply s1
         | Responded v \<Rightarrow>
             (case v of
                Str c \<Rightarrow> if validateContent v then (PeerResponse c p, s1)
                         else try_peers ps u reply s1
              | NotAString \<Rightarrow> try_peers ps u reply s1))"

definition requestFromPeers :: "url \<Rightarrow> (peer_id \<Rightarrow> peer_outcome) \<Rightarrow> DeployNetClient
    \<Rightarrow> peer_result \<times> DeployNetClient" where
  "requestFromPeers u reply s =
     (if length (peers s) = 0 then (NoResponse, s)
      else try_peers (selectOptimalPeers s 3) u reply s)"

record Response =
  body :: content
  status :: nat
  deployNetSource :: string
  deployNetPeer :: "peer_id option"

definition createResponseFromCache :: "content \<Rightarrow> Response" where
  "createResponseFromCache c =
     \<lparr>body = c, status = 200, deployNetSource = ''cache'', deployNetPeer = None\<rparr>"

definition createResponseFromPeer :: "content \<Rightarrow> peer_id \<Rightarrow> Response" where
  "createResponseFromPeer c p =
     \<lparr>body = c, status = 200, deployNetSource = ''peer'', deployNetPeer = Some p\<rparr>"

datatype resolution = Served Response | FromOriginalFetch origin_result | Unsettled

text \<open>
  \<open>interceptRequest(url, init, originalFetch)\<close>; \<open>now1\<close> and \<open>now2\<close> are the clock values
  read by \<open>cache.get\<close> and by \<open>cache.store\<close>.
\<close>

definition interceptRequest :: "int \<Rightarrow> int \<Rightarrow> url \<Rightarrow> (peer_id \<Rightarrow> peer_outcome)
    \<Rightarrow> (url \<Rightarrow> origin_result) \<Rightarrow> DeployNetClient \<Rightarrow> resolution \<times> DeployNetClient" where
  "interceptRequest now1 now2 u reply originalFetch s =
     (let (cached, c1) = get now1 u (cache s);
          s1 = s\<lparr>cache := c1\<rparr>
      in case cached of
           Some c \<Rightarrow> (Served (createResponseFromCache c), s1)
         | None \<Rightarrow>
             (let (peerResponse, s2) = requestFromPeers u reply s1
              in case peerResponse of
                   NeverSettles \<Rightarrow> (Unsettled, s2)
                 | PeerResponse c p \<Rightarrow>
                     (Served (createResponseFromPeer c p),
                      s2\<lparr>cache := store now2 u c (cache s2)\<rparr>)
                 | NoResponse \<Rightarrow>
                     (FromOriginalFetch (originalFetch u),
                      s2\<lparr>originFetched := originFetched s2 @ [u]\<rparr>)))"

definition handleContentRequest :: "int \<Rightarrow> peer_id \<Rightarrow> url \<Rightarrow> DeployNetClient \<Rightarrow> DeployNetClient" where
  "handleContentRequest now p u s =
     (let (cont, c1) = get now u (cache s);
          s1 = s\<lparr>cache := c1\<rparr>
      in case cont of
           Some c \<Rightarrow> sendToPeer p (ContentResponse u (Str c) (clientId s1)) s1
         | None \<Rightarrow> s1)"

definition handlePeerMessage :: "int \<Rightarrow> peer_id \<Rightarrow> peer_message \<Rightarrow> DeployNetClient \<Rightarrow> DeployNetClient" where
  "handlePeerMessage now p d s =
     (case d of
        ContentRequest u r \<Rightarrow> handleContentRequest now p u s
      | ContentResponse u v r \<Rightarrow> s
      | OtherMessage \<Rightarrow> s
      | BadJson \<Rightarrow> s)"

subsection \<open>The session handlers\<close>

definition cleanupPeerConnection :: "peer_id \<Rightarrow> DeployNetClient \<Rightarrow> DeployNetClient" where
  "cleanupPeerConnection p s =
     (let s1 = (case map_get p (peerConnections s) of
                  Some pc \<Rightarrow> s\<lparr>peerConnections := map_delete p (peerConnections s)\<rparr>
                | None \<Rightarrow> s);
          s2 = (case map_get p (dataChannels s1) of
                  Some ch \<Rightarrow> s1\<lparr>dataChannels := map_delete p (dataChannels s1)\<rparr>
                | None \<Rightarrow> s1)
      in s2\<lparr>peers := map_delete p (peers s2)\<rparr>)"

definition handleOffer :: "signal \<Rightarrow> bool \<Rightarrow> DeployNetClient \<Rightarrow> DeployNetClient" where
  "handleOffer m ok s =
     (case payload m of
        SyntaxError \<Rightarrow> s
      | Value offer \<Rightarrow>
          if ok then
            s\<lparr>peerConnections := map_set (senderId m)
                   [SetRemoteDescription offer, CreateAnswer, SetLocalDescription]
                   (peerConnections s),
              signalingSent := signalingSent s @ [1]\<rparr>
          else
            s\<lparr>peerConnections := map_set (senderId m) [SetRemoteDescription offer]
                   (peerConnections s)\<rparr>)"

definition handleAnswer :: "signal \<Rightarrow> DeployNetClient \<Rightarrow> DeployNetClient" where
  "handleAnswer m s =
     (case payload m of
        SyntaxError \<Rightarrow> s
      | Value answer \<Rightarrow>
          (case map_get (senderId m) (peerConnections s) of
             Some pc \<Rightarrow> s\<lparr>peerConnections := map_set (senderId m)
                             (pc @ [SetRemoteDescription answer]) (peerConnections s)\<rparr>
           | None \<Rightarrow> s))"

definition handleIceCandidate :: "signal \<Rightarrow> DeployNetClient \<Rightarrow> DeployNetClient" where
  "handleIceCandidate m s =
     (case payload m of
        SyntaxError \<Rightarrow> s
      | Value candidate \<Rightarrow>
          (case map_get (senderId m) (peerConnections s) of
             Some pc \<Rightarrow> s\<lparr>peerConnections := map_set (senderId m)
                             (pc @ [AddIceCandidate candidate]) (peerConnections s)\<rparr>
           | None \<Rightarrow> s))"

definition initiatePeerConnection :: "peer_id \<Rightarrow> bool \<Rightarrow> DeployNetClient \<Rightarrow> DeployNetClient" where
  "initiatePeerConnection p ok s =
     (if map_has p (peerConnections s) then s
      else if ok then
        s\<lparr>peerConnections := map_set p [CreateDataChannel, CreateOffer, SetLocalDescription]
               (peerConnections s),
          signalingSent := signalingSent s @ [0]\<rparr>
      else
        cleanupPeerConnection p
          (s\<lparr>peerConnections := map_set p [CreateDataChannel, CreateOffer]
                 (peerConnections s)\<rparr>))"

definition handlePeerDiscovery :: "signal \<Rightarrow> bool \<Rightarrow> DeployNetClient \<Rightarrow> DeployNetClient" where
  "handlePeerDiscovery m ok s =
     (case payload m of
        SyntaxError \<Rightarrow> s
      | Value peerInfo \<Rightarrow>
          (let s1 = s\<lparr>peers := map_set (senderId m) peerInfo (peers s)\<rparr>
           in if int (length (peerConnections s1)) < maxPeers s1
              then initiatePeerConnection (senderId m) ok s1 else s1))"

definition handlePeerRegistered :: "signal \<Rightarrow> bool \<Rightarrow> DeployNetClient \<Rightarrow> DeployNetClient" where
  "handlePeerRegistered m ok s =
     (case payload m of
        SyntaxError \<Rightarrow> s
      | Value peerInfo \<Rightarrow>
          (let s1 = s\<lparr>peers := map_set (senderId m) peerInfo (peers s)\<rparr>
           in if int (length (peerConnections s1)) < maxPeers s1
              then initiatePeerConnection (senderId m) ok s1 else s1))"

definition handleSignalingMessage :: "signal \<Rightarrow> bool \<Rightarrow> DeployNetClient \<Rightarrow> DeployNetClient" where
  "handleSignalingMessage m ok s =
     (if msgType m = 0 then handleOffer m ok s
      else if msgType m = 1 then handleAnswer m s
      else if msgType m = 2 then handleIceCandidate m s
      else if msgType m = 3 then handlePeerDiscovery m ok s
      else if msgType m = 6 then handlePeerRegistered m ok s
      else s)"

subsection \<open>Events of one client\<close>

text \<open>
  What can happen to a client after \<open>initialize\<close>: a message on the signaling socket,
  the \<open>onopen\<close>, \<open>onclose\<close> and \<open>onmessage\<close> callbacks of a data channel, a change of a
  channel's \<open>readyState\<close>, the \<open>onconnectionstatechange\<close> callback of a connection
  reporting \<open>disconnected\<close> or \<open>failed\<close>, and an intercepted \<open>fetch\<close>.
\<close>

datatype client_event =
    Signal signal bool
  | ChannelOpen peer_id
  | ChannelClose peer_id
  | ChannelState peer_id ready_state
  | ChannelMessage int peer_id peer_message
  | ConnectionLost peer_id
  | Fetch int int url "peer_id \<Rightarrow> peer_outcome" "url \<Rightarrow> origin_result"

fun client_step :: "client_event \<Rightarrow> DeployNetClient \<Rightarrow> DeployNetClient" where
  "client_step (Signal m ok) s = handleSignalingMessage m ok s"
| "client_step (ChannelOpen p) s = s\<lparr>dataChannels := map_set p Open (dataChannels s)\<rparr>"
| "client_step (ChannelClose p) s = s\<lparr>dataChannels := map_delete p (dataChannels s)\<rparr>"
| "client_step (ChannelState p st) s =
     (if map_has p (dataChannels s) then s\<lparr>dataChannels := map_set p st (dataChannels s)\<rparr>
      else s)"
| "client_step (ChannelMessage now p d) s = handlePeerMessage now p d s"
| "client_step (ConnectionLost p) s = cleanupPeerConnection p s"
| "client_step (Fetch now1 now2 u reply originalFetch) s =
     snd (interceptRequest now1 now2 u reply originalFetch s)"

fun run_client :: "client_event list \<Rightarrow> DeployNetClient \<Rightarrow> DeployNetClient" where
  "run_client [] s = s"
| "run_client (e # es) s = run_client es (client_step e s)"

text \<open>The candidates handed to \<open>addIceCandidate\<close> on the connection kept for a peer.\<close>

definition applied_candidates :: "peer_id \<Rightarrow> DeployNetClient \<Rightarrow> string list" where
  "applied_candidates p s =
     (case map_get p (peerConnections s) of
        None \<Rightarrow> []
      | Some pc \<Rightarrow> concat (map (\<lambda>c. case c of AddIceCandidate x \<Rightarrow> [x] | _ \<Rightarrow> []) pc))"

definition has_remote_description :: "peer_id \<Rightarrow> DeployNetClient \<Rightarrow> bool" where
  "has_remote_description p s =
     (case map_get p (peerConnections s) of
        None \<Rightarrow> False
      | Some pc \<Rightarrow> list_ex (\<lambda>c. case c of SetRemoteDescription d \<Rightarrow> True | _ \<Rightarrow> False) pc)"

text \<open>Every entry of the cache holds a non-empty content.\<close>

definition entries_truthy :: "ContentCache \<Rightarrow> bool" where
  "entries_truthy c = list_all (\<lambda>p. truthy (snd p)) (entries c)"

section \<open>The signaling hub (src/cmd/signaling-server/main.go)\<close>

text \<open>
  \<open>Hub.Run\<close> is one goroutine that serves its three unbuffered channels one receive
  at a time, so the hub is a state machine over these receives. \<open>*Client\<close> pointers
  are addresses into a store of \<open>Client\<close> objects, because \<open>Clients\<close> and \<open>Rooms\<close> share
  them. A buffered channel \<open>Send\<close> is the list of the messages waiting in it (capacity
  256) and a flag for \<open>close\<close>; the websocket of a client is the list of the text
  messages written to it. Go maps are association lists; the order in which \<open>range\<close>
  visits a map is not fixed by Go, so it is an input of the broadcast. A panic of the
  goroutine and a send that blocks forever are states of the hub.
\<close>

type_synonym bytes = string
type_synonym addr = nat

record SignalMessage =
  Type :: int
  Payload :: bytes
  SenderID :: string
  Timestamp :: int
  RoomID :: string

record Client =
  ID :: string
  Conn :: "bytes list"
  Send :: "bytes list"
  SendClosed :: bool
  RoomID :: string

datatype hub_status = Running | Blocked | Panicked

record Hub =
  Clients :: "(string \<times> addr) list"
  Rooms :: "(string \<times> (string \<times> addr) list) list"
  store_of :: "addr \<Rightarrow> Client"
  allocated :: nat
  status :: hub_status

definition NewHub :: Hub where
  "NewHub = \<lparr>Clients = [], Rooms = [],
             store_of = (\<lambda>a. \<lparr>ID = [], Conn = [], Send = [], SendClosed = False, RoomID = []\<rparr>),
             allocated = 0, status = Running\<rparr>"

text \<open>The \<open>Register\<close> case of \<open>Hub.Run\<close>, for the client at address \<open>a\<close>.\<close>

definition Run_Register :: "addr \<Rightarrow> Hub \<Rightarrow> Hub" where
  "Run_Register a h =
     (let client = store_of h a;
          h1 = h\<lparr>Clients := map_set (ID client) a (Clients h)\<rparr>;
          h2 = (if \<not> map_has (Client.RoomID client) (Rooms h1)
                then h1\<lparr>Rooms := map_set (Client.RoomID client) [] (Rooms h1)\<rparr> else h1)
      in case map_get (Client.RoomID client) (Rooms h2) of
           None \<Rightarrow> h2
         | Some room \<Rightarrow>
             h2\<lparr>Rooms := map_set (Client.RoomID client) (map_set (ID client) a room) (Rooms h2)\<rparr>)"

text \<open>
  The \<open>Unregister\<close> case. \<open>close\<close> of a channel that is closed already panics.
\<close>

definition Run_Unregister :: "addr \<Rightarrow> Hub \<Rightarrow> Hub" where
  "Run_Unregister a h =
     (let client = store_of h a
      in if map_has (ID client) (Clients h) then
           (let h1 = h\<lparr>Clients := map_delete (ID client) (Clients h)\<rparr>;
                h2 = (case map_get (Client.RoomID client) (Rooms h1) of
                        None \<Rightarrow> h1
                      | Some room \<Rightarrow>
                          (let room' = map_delete (ID client) room
                           in if length room' = 0
                              then h1\<lparr>Rooms := map_delete (Client.RoomID client) (Rooms h1)\<rparr>
                              else h1\<lparr>Rooms := map_set (Client.RoomID client) room' (Rooms h1)\<rparr>))
            in if SendClosed client then h2\<lparr>status := Panicked\<rparr>
               else h2\<lparr>store_of := (store_of h2)(a := client\<lparr>SendClosed := True\<rparr>)\<rparr>)
         else h)"

text \<open>
  The \<open>range\<close> loop of the \<open>Broadcast\<close> case over the clients of the room, in the order
  \<open>range\<close> visits them. The \<open>select\<close> with \<open>default\<close> sends \<open>message.Payload\<close> when the
  channel has room; a send on a closed channel panics; in the \<open>default\<close> branch
  \<open>h.Unregister <- client\<close> is a send on an unbuffered channel whose only receiver is
  this very goroutine, so it blocks forever.
\<close>

fun broadcast_loop :: "addr list \<Rightarrow> SignalMessage \<Rightarrow> Hub \<Rightarrow> Hub" where
  "broadcast_loop [] message h = h"
| "broadcast_loop (a # rest) message h =
     (let client = store_of h a
      in if ID client \<noteq> SenderID message then
           (if SendClosed client then h\<lparr>status := Panicked\<rparr>
            else if length (Send client) < 256 then
              broadcast_loop rest message
                (h\<lparr>store_of := (store_of h)(a := client\<lparr>Send := Send client @ [Payload message]\<rparr>)\<rparr>)
            else h\<lparr>status := Blocked\<rparr>)
         else broadcast_loop rest message h)"

definition Run_Broadcast :: "addr list \<Rightarrow> SignalMessage \<Rightarrow> Hub \<Rightarrow> Hub" where
  "Run_Broadcast visit message h =
     (case map_get (SignalMessage.RoomID message) (Rooms h) of
        None \<Rightarrow> h
      | Some clientsInRoom \<Rightarrow>
          if sort visit = sort (map snd clientsInRoom) then broadcast_loop visit message h
          else h)"

text \<open>
  \<open>serveWs\<close>: the client id and the room come from the query string, with their
  defaults (\<open>gen\<close> is the result of \<open>generateClientID()\<close>); the new client is registered.
\<close>

definition serveWs :: "string \<Rightarrow> string \<Rightarrow> string \<Rightarrow> Hub \<Rightarrow> Hub" where
  "serveWs idParam roomParam gen h =
     (let clientID = (if idParam = [] then gen else idParam);
          roomID = (if roomParam = [] then ''default'' else roomParam);
          a = allocated h;
          client = \<lparr>ID = clientID, Conn = [], Send = [], SendClosed = False, RoomID = roomID\<rparr>
      in Run_Register a (h\<lparr>store_of := (store_of h)(a := client), allocated := Suc a\<rparr>))"

text \<open>
  One round of the loop of \<open>ReadPump\<close> for the client at \<open>a\<close>: \<open>parsed\<close> is the result of
  \<open>json.Unmarshal\<close> on the message read (\<open>None\<close> for an error, which is logged and
  skipped); the sender id is overwritten and the message goes to the hub.
\<close>

definition ReadPump_message :: "addr \<Rightarrow> SignalMessage option \<Rightarrow> addr list \<Rightarrow> Hub \<Rightarrow> Hub" where
  "ReadPump_message a parsed visit h =
     (case parsed of
        None \<Rightarrow> h
      | Some signalMsg \<Rightarrow> Run_Broadcast visit (signalMsg\<lparr>SenderID := ID (store_of h a)\<rparr>) h)"

text \<open>
  One round of the loop of \<open>WritePump\<close>: the next message of \<open>Send\<close> is written to the
  connection as it is (the write succeeds).
\<close>

definition WritePump_message :: "addr \<Rightarrow> Hub \<Rightarrow> Hub" where
  "WritePump_message a h =
     (let c = store_of h a
      in case Send c of
           [] \<Rightarrow> h
         | message # rest \<Rightarrow>
             h\<lparr>store_of := (store_of h)(a := c\<lparr>Send := rest, Conn := Conn c @ [message]\<rparr>)\<rparr>)"

datatype hub_event =
    Connect string string string
  | Disconnect addr
  | Inbound addr "SignalMessage option" "addr list"
  | Written addr

text \<open>
  Once \<open>Hub.Run\<close> has panicked nothing runs; once it is blocked, the pumps of the
  clients still run, but every send to the hub blocks.
\<close>

fun hub_step :: "hub_event \<Rightarrow> Hub \<Rightarrow> Hub" where
  "hub_step (Connect idParam roomParam gen) h =
     (if status h = Running then serveWs idParam roomParam gen h else h)"
| "hub_step (Disconnect a) h =
     (if status h = Running \<and> a < allocated h then Run_Unregister a h else h)"
| "hub_step (Inbound a parsed visit) h =
     (if status h = Running \<and> a < allocated h then ReadPump_message a parsed visit h else h)"
| "hub_step (Written a) h =
     (if status h \<noteq> Panicked \<and> a < allocated h then WritePump_message a h else h)"

fun run_hub :: "hub_event list \<Rightarrow> Hub \<Rightarrow> Hub" where
  "run_hub [] h = h"
| "run_hub (e # es) h = run_hub es (hub_step e h)"

text \<open>
  Every entry of a room is filed under the id of the client it points to, in the room
  that client names, and points to an allocated client.
\<close>

definition hub_wf :: "Hub \<Rightarrow> bool" where
  "hub_wf h =
     list_all (\<lambda>(r, room).
        list_all (\<lambda>(k, a). a < allocated h \<and> ID (store_of h a) = k \<and>
                            Client.RoomID (store_of h a) = r) room) (Rooms h)"

section \<open>Properties of the cache\<close>

subsection \<open>Map operations\<close>

lemma map_get_delete: "map_get v (map_delete k m) = (if v = k then None else map_get v m)"
  by (induction m) (auto simp: map_get_def map_delete_def)

lemma map_get_set: "map_get v (map_set k x m) = (if v = k then Some x else map_get v m)"
  by (induction m) (auto simp: map_get_def)

lemma keys_map_set:
  "map fst (map_set k x m) = (if k \<in> fst ` set m then map fst m else map fst m @ [k])"
proof (induction m)
  case Nil
  show ?case by simp
next
  case (Cons p m)
  obtain k' v' where p: "p = (k', v')" by (cases p)
  show ?case using Cons.IH by (simp add: p)
qed

lemma distinct_map_set: "distinct (map fst m) \<Longrightarrow> distinct (map fst (map_set k x m))"
  by (simp add: keys_map_set)

lemma distinct_map_delete: "distinct (map fst m) \<Longrightarrow> distinct (map fst (map_delete k m))"
  by (simp add: map_delete_def distinct_map_filter)

lemma set_map_set_subset: "set (map_set k v m) \<subseteq> insert (k, v) (set m)"
  by (induction m) (auto split: if_splits)

lemma evict_loop_entries_subset: "set (entries (evict_loop xs r f c)) \<subseteq> set (entries c)"
proof (induction xs arbitrary: f c)
  case Nil
  show ?case by simp
next
  case (Cons x xs)
  obtain u t where x: "x = (u, t)" by (cases x)
  have step: "set (entries (evict_loop xs r f' c')) \<subseteq> set (entries c)"
    if "set (entries c') \<subseteq> set (entries c)" for f' c'
    using Cons.IH[of f' c'] that by blast
  show ?case
    by (simp add: x Let_def step map_delete_def split: option.splits)
qed

lemma set_map_delete: "set (map_delete k m) \<subseteq> set m"
  by (auto simp: map_delete_def)

lemma map_get_in_set: "map_get k m = Some v \<Longrightarrow> (k, v) \<in> set m"
  by (auto simp: map_get_def dest: map_of_SomeD)

lemma map_has_get: "map_has k m = (map_get k m \<noteq> None)"
  by (simp add: map_has_def map_get_def)

lemma map_set_twice: "map_set k v (map_set k w m) = map_set k v m"
  by (induction m) auto

lemma evict_loop_entries_mono:
  "map_get k (entries c) = None \<Longrightarrow> map_get k (entries (evict_loop xs r f c)) = None"
  by (induction xs r f c rule: evict_loop.induct)
     (auto simp: map_get_delete Let_def split: option.splits)

lemma evict_loop_maxSize: "maxSize (evict_loop xs r f c) = maxSize c"
  by (induction xs r f c rule: evict_loop.induct)
     (auto simp: Let_def split: option.splits)

lemma evict_loop_distinct:
  "distinct (map fst (accessTime c)) \<Longrightarrow> distinct (map fst (accessTime (evict_loop xs r f c)))"
  by (induction xs r f c rule: evict_loop.induct)
     (auto simp: Let_def distinct_map_delete split: option.splits)

lemma evict_loop_order:
  "distinct (map fst (ys @ (v, tv) # zs)) \<Longrightarrow>
   map_get v (entries c) = Some cv \<Longrightarrow> truthy cv \<Longrightarrow>
   u \<in> fst ` set zs \<Longrightarrow> map_get u (entries c) \<noteq> None \<Longrightarrow>
   map_get u (entries (evict_loop (ys @ (v, tv) # zs) r f c)) = None \<Longrightarrow>
   map_get v (entries (evict_loop (ys @ (v, tv) # zs) r f c)) = None"
proof (induction ys arbitrary: f c)
  case Nil
  let ?c' = "c\<lparr>entries := map_delete v (entries c), accessTime := map_delete v (accessTime c),
               currentSize := currentSize c - blob_size cv\<rparr>"
  have gone: "map_get v (entries ?c') = None" by (simp add: map_get_delete)
  then have "map_get v (entries (evict_loop zs r (f + blob_size cv) ?c')) = None"
    by (rule evict_loop_entries_mono)
  with gone Nil.prems(2,3) show ?case by (simp add: Let_def)
next
  case (Cons y ys)
  obtain k t where y: "y = (k, t)" by (cases y)
  from Cons.prems(1) y have kv: "k \<noteq> v" and ku: "k \<noteq> u"
    and d: "distinct (map fst (ys @ (v, tv) # zs))"
    using Cons.prems(4) by (auto simp: image_iff)
  show ?case
  proof (cases "map_get k (entries c)")
    case None
    with Cons.IH[OF d Cons.prems(2,3,4,5)] Cons.prems(6) y show ?thesis by simp
  next
    case (Some ck)
    show ?thesis
    proof (cases "truthy ck")
      case False
      with Some Cons.IH[OF d Cons.prems(2,3,4,5)] Cons.prems(6) y show ?thesis by simp
    next
      case True
      let ?c' = "c\<lparr>entries := map_delete k (entries c), accessTime := map_delete k (accessTime c),
               currentSize := currentSize c - blob_size ck\<rparr>"
      have v': "map_get v (entries ?c') = Some cv"
        using kv Cons.prems(2) by (simp add: map_get_delete)
      have u': "map_get u (entries ?c') \<noteq> None"
        using ku Cons.prems(5) by (simp add: map_get_delete)
      show ?thesis
      proof (cases "f + blob_size ck \<ge> r")
        case True
        with Some \<open>truthy ck\<close> Cons.prems(6) u' y show ?thesis by (simp add: Let_def)
      next
        case False
        with Some \<open>truthy ck\<close> Cons.prems(6) y
          Cons.IH[OF d v' Cons.prems(3,4) u', of "f + blob_size ck"]
        show ?thesis by (simp add: Let_def)
      qed
    qed
  qed
qed

lemma sorted_before:
  assumes "sorted (map snd xs)" "(v, tv) \<in> set xs" "(u, tu) \<in> set xs" "tv < (tu::int)"
  shows "\<exists>ys zs. xs = ys @ (v, tv) # zs \<and> u \<in> fst ` set zs"
proof -
  from assms(2) obtain ys zs where xs: "xs = ys @ (v, tv) # zs" by (auto dest: split_list)
  have "(u, tu) \<notin> set ys"
  proof
    assume "(u, tu) \<in> set ys"
    with assms(1) xs have "tu \<le> tv" by (force simp: sorted_append)
    with assms(4) show False by simp
  qed
  with assms(3,4) xs have "(u, tu) \<in> set zs" by auto
  then have "u \<in> fst ` set zs" by force
  with xs show ?thesis by blast
qed

lemma evictLRU_order:
  assumes d: "distinct (map fst (accessTime c))"
    and v: "map_get v (entries c) = Some cv" "truthy cv" "map_get v (accessTime c) = Some tv"
    and u: "map_get u (entries c) \<noteq> None" "map_get u (accessTime c) = Some tu"
    and lt: "tv < tu"
    and gone: "map_get u (entries (evictLRU r c)) = None"
  shows "map_get v (entries (evictLRU r c)) = None"
proof -
  let ?xs = "sortedEntries c"
  have s: "sorted (map snd ?xs)" by (simp add: sortedEntries_def)
  have dx: "distinct (map fst ?xs)"
    using d by (simp add: sortedEntries_def distinct_map)
  have "(v, tv) \<in> set ?xs" "(u, tu) \<in> set ?xs"
    using v(3) u(2) by (auto simp: sortedEntries_def map_get_def dest: map_of_SomeD)
  from sorted_before[OF s this lt] obtain ys zs
    where xs: "?xs = ys @ (v, tv) # zs" and uz: "u \<in> fst ` set zs" by blast
  from dx xs have "distinct (map fst (ys @ (v, tv) # zs))" by simp
  from evict_loop_order[OF this v(1,2) uz u(1)] gone xs
  show ?thesis by (simp add: evictLRU_def)
qed


lemma store_distinct:
  "distinct (map fst (accessTime c)) \<Longrightarrow> distinct (map fst (accessTime (store now u cont c)))"
  by (simp add: store_def Let_def evictLRU_def distinct_map_set evict_loop_distinct)

lemma get_distinct:
  "distinct (map fst (accessTime c)) \<Longrightarrow> distinct (map fst (accessTime (snd (get now u c))))"
  by (simp add: get_def distinct_map_set split: option.splits)

lemma run_ops_distinct:
  "distinct (map fst (accessTime c)) \<Longrightarrow> distinct (map fst (accessTime (run_ops ops c)))"
proof (induction ops arbitrary: c)
  case Nil
  then show ?case by simp
next
  case (Cons x xs)
  have "distinct (map fst (accessTime (apply_op x c)))"
    using Cons.prems by (cases x) (simp_all add: store_distinct get_distinct)
  then show ?case using Cons.IH by simp
qed

lemma reachable_distinct: "distinct (map fst (accessTime (run_ops ops (new_ContentCache C))))"
  by (rule run_ops_distinct) (simp add: new_ContentCache_def)

lemma store_other_entry:
  "k \<noteq> u \<Longrightarrow> map_get k (entries (store now u cont c)) =
     (if currentSize c + blob_size cont > maxSize c
      then map_get k (entries (evictLRU (blob_size cont) c)) else map_get k (entries c))"
  by (simp add: store_def Let_def map_get_set)

lemma get_entries: "entries (snd (get now u c)) = entries c"
  by (simp add: get_def split: option.splits)

lemma get_hit:
  "map_get u (entries c) = Some cont \<Longrightarrow> truthy cont \<Longrightarrow>
   get now u c = (Some cont, c\<lparr>accessTime := map_set u now (accessTime c)\<rparr>)"
  by (simp add: get_def)

lemma store_entry: "map_get u (entries (store now u cont c)) = Some cont"
  by (simp add: store_def Let_def map_get_set)

text \<open>
  Claim C4, as the code has it. For every cache reached by \<open>store\<close> and \<open>get\<close> calls, every
  url and every non-empty content: \<open>get(url)\<close> right after \<open>store(url, content)\<close> returns
  that content, sets the url's access time to the clock value read by \<open>get\<close>, and from
  then on \<open>evictLRU\<close> removes the url only together with every other non-empty entry
  whose access time is older; the url is never evicted ahead of an older entry.
\<close>

theorem C4_get_after_store:
  assumes "truthy cont"
  shows "fst (get t2 u (store t1 u cont (run_ops ops (new_ContentCache C)))) = Some cont \<and>
     map_get u (accessTime (snd (get t2 u (store t1 u cont (run_ops ops (new_ContentCache C)))))) = Some t2 \<and>
     (\<forall>v cv tv r.
        map_get v (entries (snd (get t2 u (store t1 u cont (run_ops ops (new_ContentCache C)))))) = Some cv \<and>
        truthy cv \<and>
        map_get v (accessTime (snd (get t2 u (store t1 u cont (run_ops ops (new_ContentCache C)))))) = Some tv \<and>
        tv < t2 \<and>
        map_get u (entries (evictLRU r (snd (get t2 u (store t1 u cont (run_ops ops (new_ContentCache C))))))) = None
        \<longrightarrow> map_get v (entries (evictLRU r (snd (get t2 u (store t1 u cont (run_ops ops (new_ContentCache C))))))) = None)"
proof -
  let ?c0 = "run_ops ops (new_ContentCache C)"
  let ?c1 = "store t1 u cont ?c0"
  let ?c2 = "snd (get t2 u ?c1)"
  have hit: "get t2 u ?c1 = (Some cont, ?c1\<lparr>accessTime := map_set u t2 (accessTime ?c1)\<rparr>)"
    using assms by (simp add: get_hit store_entry)
  have d: "distinct (map fst (accessTime ?c2))"
    by (intro get_distinct store_distinct reachable_distinct)
  have at: "map_get u (accessTime ?c2) = Some t2" by (simp add: hit map_get_set)
  have en: "map_get u (entries ?c2) \<noteq> None" by (simp add: hit store_entry)
  have ord: "\<forall>v cv tv r.
        map_get v (entries ?c2) = Some cv \<and> truthy cv \<and>
        map_get v (accessTime ?c2) = Some tv \<and> tv < t2 \<and>
        map_get u (entries (evictLRU r ?c2)) = None
        \<longrightarrow> map_get v (entries (evictLRU r ?c2)) = None"
    using evictLRU_order[OF d _ _ _ en at] by blast
  have ret: "fst (get t2 u ?c1) = Some cont" by (simp add: hit)
  show ?thesis by (rule conjI[OF ret conjI[OF at ord]])
qed

text \<open>
  C4 at a concrete cache: the entry \<open>old\<close> (access time 1) goes whenever \<open>u\<close>, stored at 2
  and read at 3, goes.
\<close>

theorem C4_get_after_store_witness:
  "truthy ''new'' \<and>
   map_get ''old'' (entries (snd (get 3 ''u'' (store 2 ''u'' ''new'' (run_ops [Store 1 ''old'' ''xx''] (new_ContentCache 10)))))) = Some ''xx'' \<and>
   truthy ''xx'' \<and>
   map_get ''old'' (accessTime (snd (get 3 ''u'' (store 2 ''u'' ''new'' (run_ops [Store 1 ''old'' ''xx''] (new_ContentCache 10)))))) = Some 1 \<and>
   (1::int) < 3 \<and>
   map_get ''u'' (entries (evictLRU 5 (snd (get 3 ''u'' (store 2 ''u'' ''new'' (run_ops [Store 1 ''old'' ''xx''] (new_ContentCache 10))))))) = None \<and>
   fst (get 3 ''u'' (store 2 ''u'' ''new'' (run_ops [Store 1 ''old'' ''xx''] (new_ContentCache 10)))) = Some ''new'' \<and>
   map_get ''old'' (entries (evictLRU 5 (snd (get 3 ''u'' (store 2 ''u'' ''new'' (run_ops [Store 1 ''old'' ''xx''] (new_ContentCache 10))))))) = None"
proof -
  have t: "truthy ''new''" by (simp add: truthy_def)
  have h: "map_get ''old'' (entries (snd (get 3 ''u'' (store 2 ''u'' ''new'' (run_ops [Store 1 ''old'' ''xx''] (new_ContentCache 10)))))) = Some ''xx'' \<and>
   truthy ''xx'' \<and>
   map_get ''old'' (accessTime (snd (get 3 ''u'' (store 2 ''u'' ''new'' (run_ops [Store 1 ''old'' ''xx''] (new_ContentCache 10)))))) = Some 1 \<and>
   (1::int) < 3 \<and>
   map_get ''u'' (entries (evictLRU 5 (snd (get 3 ''u'' (store 2 ''u'' ''new'' (run_ops [Store 1 ''old'' ''xx''] (new_ContentCache 10))))))) = None"
    by code_simp
  from C4_get_after_store[OF t, of 3 "''u''" 2 "[Store 1 ''old'' ''xx'']" 10] h t
  show ?thesis by blast
qed

text \<open>
  C4 as stated fails for the empty content: \<open>get\<close> tests \<open>if (content)\<close>, the empty
  string is falsy, and \<open>get\<close> answers \<open>null\<close> right after \<open>store(url, "")\<close>. It also fails
  on an older entry that holds the empty content: \<open>evictLRU\<close> skips that entry, and the
  url just stored and read is the next one evicted.
\<close>

theorem C4_empty_content_counterexample:
  "fst (get 2 ''a'' (store 1 ''a'' [] (new_ContentCache 10))) \<noteq> Some [] \<and>
   map_get ''e'' (accessTime (snd (get 3 ''u'' (store 2 ''u'' ''xx''
      (store 1 ''e'' [] (new_ContentCache 10)))))) = Some 1 \<and>
   map_get ''u'' (entries (evictLRU 1 (snd (get 3 ''u'' (store 2 ''u'' ''xx''
      (store 1 ''e'' [] (new_ContentCache 10))))))) = None \<and>
   map_get ''e'' (entries (evictLRU 1 (snd (get 3 ''u'' (store 2 ''u'' ''xx''
      (store 1 ''e'' [] (new_ContentCache 10))))))) = Some []"
  by code_simp

lemma evict_loop_keeps_falsy:
  "map_get e (entries c) = Some cont \<Longrightarrow> \<not> truthy cont \<Longrightarrow>
   map_get e (entries (evict_loop xs r f c)) = Some cont"
  by (induction xs r f c rule: evict_loop.induct)
     (auto simp: map_get_delete Let_def split: option.splits)

text \<open>
  Claim C7, as the code has it. In every cache reached by \<open>store\<close> and \<open>get\<close> calls,
  \<open>evictLRU\<close> removes the entries with non-empty content in the order of their access
  times: if an entry \<open>u\<close> is removed, every non-empty entry \<open>v\<close> with a strictly older
  access time is removed as well. In particular, after \<open>get(a)\<close> at a time later than
  the access time of an untouched non-empty entry \<open>b\<close>, a following \<open>store\<close> of another
  url evicts \<open>a\<close> only if it evicts \<open>b\<close> too. An entry whose content is the empty
  string is skipped: it is still present after every eviction.
\<close>

theorem C7_evict_least_recent_first:
  assumes c: "c = run_ops ops (new_ContentCache C)"
  shows "(\<forall>u v cv tv tu r.
      map_get v (entries c) = Some cv \<and> truthy cv \<and> map_get v (accessTime c) = Some tv \<and>
      map_get u (entries c) \<noteq> None \<and> map_get u (accessTime c) = Some tu \<and> tv < tu \<and>
      map_get u (entries (evictLRU r c)) = None
      \<longrightarrow> map_get v (entries (evictLRU r c)) = None) \<and>
    (\<forall>a b ca cb tb t t' n big.
      map_get a (entries c) = Some ca \<and> truthy ca \<and>
      map_get b (entries c) = Some cb \<and> truthy cb \<and> map_get b (accessTime c) = Some tb \<and>
      tb < t \<and> a \<noteq> b \<and> n \<noteq> a \<and> n \<noteq> b \<and>
      map_get a (entries (store t' n big (snd (get t a c)))) = None
      \<longrightarrow> map_get b (entries (store t' n big (snd (get t a c)))) = None) \<and>
    (\<forall>e r. map_get e (entries c) = Some []
      \<longrightarrow> map_get e (entries (evictLRU r c)) = Some [])"
proof (intro conjI allI impI)
  fix e r
  assume "map_get e (entries c) = Some []"
  then show "map_get e (entries (evictLRU r c)) = Some []"
    by (simp add: evictLRU_def evict_loop_keeps_falsy truthy_def)
next
  fix u v cv tv tu r
  assume h: "map_get v (entries c) = Some cv \<and> truthy cv \<and> map_get v (accessTime c) = Some tv \<and>
      map_get u (entries c) \<noteq> None \<and> map_get u (accessTime c) = Some tu \<and> tv < tu \<and>
      map_get u (entries (evictLRU r c)) = None"
  have d: "distinct (map fst (accessTime c))" unfolding c by (rule reachable_distinct)
  from h evictLRU_order[OF d, of v cv tv u tu r]
  show "map_get v (entries (evictLRU r c)) = None" by blast
next
  fix a b ca cb tb t t' n big
  assume h: "map_get a (entries c) = Some ca \<and> truthy ca \<and>
      map_get b (entries c) = Some cb \<and> truthy cb \<and> map_get b (accessTime c) = Some tb \<and>
      tb < t \<and> a \<noteq> b \<and> n \<noteq> a \<and> n \<noteq> b \<and>
      map_get a (entries (store t' n big (snd (get t a c)))) = None"
  let ?c1 = "snd (get t a c)"
  have c1: "?c1 = c\<lparr>accessTime := map_set a t (accessTime c)\<rparr>"
    using h by (simp add: get_hit)
  have d: "distinct (map fst (accessTime ?c1))"
    unfolding c by (intro get_distinct reachable_distinct)
  have a1: "map_get a (entries ?c1) \<noteq> None" "map_get a (accessTime ?c1) = Some t"
    using h by (simp_all add: c1 map_get_set)
  have b1: "map_get b (entries ?c1) = Some cb" "map_get b (accessTime ?c1) = Some tb"
    using h by (auto simp: c1 map_get_set)
  from h have an: "a \<noteq> n" and bn: "b \<noteq> n" by auto
  from h have gone: "map_get a (entries (store t' n big ?c1)) = None" by simp
  show "map_get b (entries (store t' n big ?c1)) = None"
  proof (cases "currentSize ?c1 + blob_size big > maxSize ?c1")
    case True
    with gone an have "map_get a (entries (evictLRU (blob_size big) ?c1)) = None"
      by (simp add: store_other_entry)
    from evictLRU_order[OF d b1(1) _ b1(2) a1 _ this] h
    have "map_get b (entries (evictLRU (blob_size big) ?c1)) = None" by blast
    with True bn show ?thesis by (simp add: store_other_entry)
  next
    case False
    with gone an a1 show ?thesis by (simp add: store_other_entry)
  qed
qed

text \<open>
  C7 at a concrete cache of capacity 5 holding \<open>a\<close> (time 1) and \<open>b\<close> (time 2), both of
  two bytes: an eviction for 3 bytes removes both, and so does a store of 5 bytes
  after \<open>get(b)\<close>. At a cache of capacity 3 holding the empty entry \<open>e\<close> and \<open>f\<close>, an
  eviction for 2 bytes leaves \<open>e\<close> in place.
\<close>

theorem C7_evict_least_recent_first_witness:
  "(map_get ''a'' (entries (run_ops [Store 1 ''a'' ''xx'', Store 2 ''b'' ''xx''] (new_ContentCache 5))) = Some ''xx'' \<and>
    truthy ''xx'' \<and>
    map_get ''a'' (accessTime (run_ops [Store 1 ''a'' ''xx'', Store 2 ''b'' ''xx''] (new_ContentCache 5))) = Some 1 \<and>
    map_get ''b'' (entries (run_ops [Store 1 ''a'' ''xx'', Store 2 ''b'' ''xx''] (new_ContentCache 5))) \<noteq> None \<and>
    map_get ''b'' (accessTime (run_ops [Store 1 ''a'' ''xx'', Store 2 ''b'' ''xx''] (new_ContentCache 5))) = Some 2 \<and>
    (1::int) < 2 \<and>
    map_get ''b'' (entries (evictLRU 3 (run_ops [Store 1 ''a'' ''xx'', Store 2 ''b'' ''xx''] (new_ContentCache 5)))) = None \<and>
    map_get ''a'' (entries (evictLRU 3 (run_ops [Store 1 ''a'' ''xx'', Store 2 ''b'' ''xx''] (new_ContentCache 5)))) = None) \<and>
   (map_get ''b'' (entries (run_ops [Store 1 ''a'' ''xx'', Store 2 ''b'' ''xx''] (new_ContentCache 5))) = Some ''xx'' \<and>
    (2::int) < 3 \<and> ''b'' \<noteq> ''a'' \<and> ''n'' \<noteq> ''b'' \<and> ''n'' \<noteq> ''a'' \<and>
    map_get ''b'' (entries (store 4 ''n'' ''yyyyy'' (snd (get 3 ''b''
       (run_ops [Store 1 ''a'' ''xx'', Store 2 ''b'' ''xx''] (new_ContentCache 5)))))) = None \<and>
    map_get ''a'' (entries (store 4 ''n'' ''yyyyy'' (snd (get 3 ''b''
       (run_ops [Store 1 ''a'' ''xx'', Store 2 ''b'' ''xx''] (new_ContentCache 5)))))) = None) \<and>
   (map_get ''e'' (entries (run_ops [Store 1 ''e'' [], Store 2 ''f'' ''xx''] (new_ContentCache 3))) = Some [] \<and>
    map_get ''e'' (entries (evictLRU 2
       (run_ops [Store 1 ''e'' [], Store 2 ''f'' ''xx''] (new_ContentCache 3)))) = Some [])"
proof -
  let ?c = "run_ops [Store 1 ''a'' ''xx'', Store 2 ''b'' ''xx''] (new_ContentCache 5)"
  let ?d = "run_ops [Store 1 ''e'' [], Store 2 ''f'' ''xx''] (new_ContentCache 3)"
  have h3: "map_get ''e'' (entries ?d) = Some []" by code_simp
  from C7_evict_least_recent_first[OF refl, of "[Store 1 ''e'' [], Store 2 ''f'' ''xx'']" 3,
      THEN conjunct2, THEN conjunct2, rule_format, OF h3]
  have r3: "map_get ''e'' (entries (evictLRU 2 ?d)) = Some []" .
  have h1: "map_get ''a'' (entries ?c) = Some ''xx'' \<and> truthy ''xx'' \<and>
    map_get ''a'' (accessTime ?c) = Some 1 \<and> map_get ''b'' (entries ?c) \<noteq> None \<and>
    map_get ''b'' (accessTime ?c) = Some 2 \<and> (1::int) < 2 \<and>
    map_get ''b'' (entries (evictLRU 3 ?c)) = None"
    by code_simp
  have h2: "map_get ''b'' (entries ?c) = Some ''xx'' \<and> truthy ''xx'' \<and>
    map_get ''a'' (entries ?c) = Some ''xx'' \<and> truthy ''xx'' \<and>
    map_get ''a'' (accessTime ?c) = Some 1 \<and>
    (1::int) < 3 \<and> ''b'' \<noteq> ''a'' \<and> ''n'' \<noteq> ''b'' \<and> ''n'' \<noteq> ''a'' \<and>
    map_get ''b'' (entries (store 4 ''n'' ''yyyyy'' (snd (get 3 ''b'' ?c)))) = None"
    by code_simp
  note inst = C7_evict_least_recent_first[OF refl, of "[Store 1 ''a'' ''xx'', Store 2 ''b'' ''xx'']" 5]
  from inst[THEN conjunct1, rule_format, OF h1]
  have r1: "map_get ''a'' (entries (evictLRU 3 ?c)) = None" .
  from inst[THEN conjunct2, THEN conjunct1, rule_format, OF h2]
  have r2: "map_get ''a'' (entries (store 4 ''n'' ''yyyyy'' (snd (get 3 ''b'' ?c)))) = None" .
  from h1 h2 h3 r1 r2 r3 show ?thesis by simp
qed

text \<open>
  C7 as stated fails on an entry with empty content: \<open>evictLRU\<close> skips it
  (\<open>if (content)\<close>), so the newer entry \<open>f\<close> is evicted while the older entry \<open>e\<close> stays.
\<close>

theorem C7_empty_entry_counterexample:
  "map_get ''e'' (accessTime (run_ops [Store 1 ''e'' [], Store 2 ''f'' ''xx''] (new_ContentCache 3))) = Some 1 \<and>
   map_get ''f'' (accessTime (run_ops [Store 1 ''e'' [], Store 2 ''f'' ''xx''] (new_ContentCache 3))) = Some 2 \<and>
   map_get ''e'' (entries (store 3 ''g'' ''yy'' (run_ops [Store 1 ''e'' [], Store 2 ''f'' ''xx''] (new_ContentCache 3)))) = Some [] \<and>
   map_get ''f'' (entries (store 3 ''g'' ''yy'' (run_ops [Store 1 ''e'' [], Store 2 ''f'' ''xx''] (new_ContentCache 3)))) = None"
  by code_simp

subsection \<open>The bytes present stay within the capacity when every content fits\<close>

lemma map_delete_absent: "k \<notin> fst ` set m \<Longrightarrow> map_delete k m = m"
  by (induction m) (auto simp: map_delete_def)

lemma bytes_map_delete:
  "distinct (map fst m) \<Longrightarrow> map_get u m = Some cont \<Longrightarrow>
   bytes_of (map_delete u m) = bytes_of m - blob_size cont"
proof (induction m)
  case Nil
  then show ?case by (simp add: map_get_def)
next
  case (Cons p m)
  obtain k v where p: "p = (k, v)" by (cases p)
  show ?case
  proof (cases "k = u")
    case True
    with Cons.prems p have "v = cont" "u \<notin> fst ` set m" by (auto simp: map_get_def)
    then show ?thesis using p True map_delete_absent[of u m]
      by (simp add: map_delete_def bytes_of_def)
  next
    case False
    with Cons p show ?thesis by (simp add: map_delete_def map_get_def bytes_of_def)
  qed
qed

lemma bytes_map_set:
  "bytes_of (map_set u cont m) \<le> bytes_of m + blob_size cont"
  by (induction m) (auto simp: blob_size_def bytes_of_def)

lemma evict_loop_entries_distinct:
  "distinct (map fst (entries c)) \<Longrightarrow> distinct (map fst (entries (evict_loop xs r f c)))"
  by (induction xs r f c rule: evict_loop.induct)
     (auto simp: Let_def distinct_map_delete split: option.splits)

lemma evict_loop_account:
  assumes "distinct (map fst (entries c))"
  shows "currentSize (evict_loop xs r f c) - stored_size (evict_loop xs r f c)
           = currentSize c - stored_size c \<and>
         stored_size (evict_loop xs r f c) \<le> stored_size c \<and>
         (r \<le> f + (stored_size c - stored_size (evict_loop xs r f c)) \<or>
          (\<forall>k\<in>fst ` set xs. \<forall>cont. map_get k (entries (evict_loop xs r f c)) = Some cont
              \<longrightarrow> \<not> truthy cont))"
  using assms
proof (induction xs arbitrary: f c)
  case Nil
  show ?case by simp
next
  case (Cons x xs)
  obtain u t where x: "x = (u, t)" by (cases x)
  have keep: "\<not> truthy cont'"
    if "map_get u (entries (evict_loop xs r f' c')) = Some cont'"
      "set (entries c') \<subseteq> set (entries c)"
      "\<forall>cont. map_get u (entries c) = Some cont \<longrightarrow> \<not> truthy cont" for f' c' cont'
  proof -
    from that(1) have "(u, cont') \<in> set (entries (evict_loop xs r f' c'))" by (rule map_get_in_set)
    with evict_loop_entries_subset[of xs r f' c'] that(2) have "(u, cont') \<in> set (entries c)" by blast
    with Cons.prems have "map_get u (entries c) = Some cont'" by (simp add: map_get_def)
    with that(3) show ?thesis by blast
  qed
  show ?case
  proof (cases "map_get u (entries c)")
    case None
    with Cons.IH[OF Cons.prems, of f] keep[of f c] show ?thesis by (auto simp: x)
  next
    case (Some cont)
    show ?thesis
    proof (cases "truthy cont")
      case False
      with Some Cons.IH[OF Cons.prems, of f] keep[of f c] show ?thesis by (auto simp: x)
    next
      case True
      let ?c1 = "c\<lparr>entries := map_delete u (entries c), accessTime := map_delete u (accessTime c),
                 currentSize := currentSize c - blob_size cont\<rparr>"
      have st: "stored_size ?c1 = stored_size c - blob_size cont"
        using bytes_map_delete[OF Cons.prems Some] by (simp add: stored_size_def)
      have d1: "distinct (map fst (entries ?c1))" using Cons.prems by (simp add: distinct_map_delete)
      have gone: "map_get u (entries ?c1) = None" by (simp add: map_get_delete)
      show ?thesis
      proof (cases "r \<le> f + blob_size cont")
        case True
        with Some \<open>truthy cont\<close> st show ?thesis by (simp add: x Let_def blob_size_def)
      next
        case False
        have "map_get u (entries (evict_loop xs r (f + blob_size cont) ?c1)) = None"
          using gone by (rule evict_loop_entries_mono)
        with Cons.IH[OF d1, of "f + blob_size cont"] st Some \<open>truthy cont\<close> False
        show ?thesis by (auto simp: x Let_def blob_size_def)
      qed
    qed
  qed
qed


lemma set_keys_map_set: "fst ` set (map_set k x m) = insert k (fst ` set m)"
  using keys_map_set[of k x m, THEN arg_cong, of set] by (auto split: if_splits)

lemma evict_loop_keys:
  "fst ` set (entries c) \<subseteq> fst ` set (accessTime c) \<Longrightarrow>
   fst ` set (entries (evict_loop xs r f c)) \<subseteq> fst ` set (accessTime (evict_loop xs r f c))"
proof (induction xs arbitrary: f c)
  case Nil
  then show ?case by simp
next
  case (Cons x xs)
  obtain u t where x: "x = (u, t)" by (cases x)
  let ?d = "\<lambda>cont. c\<lparr>entries := map_delete u (entries c), accessTime := map_delete u (accessTime c),
                 currentSize := currentSize c - blob_size cont\<rparr>"
  have d: "fst ` set (entries (?d cont)) \<subseteq> fst ` set (accessTime (?d cont))" for cont
    using Cons.prems by (auto simp: map_delete_def)
  show ?case
    using Cons.IH[OF Cons.prems] Cons.IH[OF d] d
    by (simp add: x Let_def split: option.splits)
qed

lemma falsy_bytes: "\<forall>p\<in>set m. \<not> truthy (snd p) \<Longrightarrow> bytes_of m = 0"
  by (induction m) (auto simp: bytes_of_def truthy_def blob_size_def)

lemma store_within_capacity:
  assumes d: "distinct (map fst (entries c))"
    and k: "fst ` set (entries c) \<subseteq> fst ` set (accessTime c)"
    and cur: "stored_size c \<le> currentSize c"
    and cap: "stored_size c \<le> maxSize c"
    and fit: "blob_size cont \<le> maxSize c"
  shows "distinct (map fst (entries (store now u cont c))) \<and>
         fst ` set (entries (store now u cont c)) \<subseteq> fst ` set (accessTime (store now u cont c)) \<and>
         stored_size (store now u cont c) \<le> currentSize (store now u cont c) \<and>
         stored_size (store now u cont c) \<le> maxSize (store now u cont c)"
proof -
  let ?sz = "blob_size cont"
  let ?c1 = "if currentSize c + ?sz > maxSize c then evictLRU ?sz c else c"
  have st: "store now u cont c = ?c1\<lparr>entries := map_set u cont (entries ?c1),
      accessTime := map_set u now (accessTime ?c1), currentSize := currentSize ?c1 + ?sz\<rparr>"
    by (simp add: store_def Let_def)
  have d1: "distinct (map fst (entries ?c1))"
    using d by (simp add: evictLRU_def evict_loop_entries_distinct)
  have k1: "fst ` set (entries ?c1) \<subseteq> fst ` set (accessTime ?c1)"
    using k evict_loop_keys[OF k] by (simp add: evictLRU_def)
  have m1: "maxSize ?c1 = maxSize c" by (simp add: evictLRU_def evict_loop_maxSize)
  note acc = evict_loop_account[OF d, of "sortedEntries c" ?sz 0]
  have cur1: "stored_size ?c1 \<le> currentSize ?c1"
    using cur acc by (auto simp: evictLRU_def)
  have room: "stored_size ?c1 + ?sz \<le> maxSize c"
  proof (cases "currentSize c + ?sz > maxSize c")
    case False
    with cur show ?thesis by simp
  next
    case True
    from acc consider "?sz \<le> stored_size c - stored_size (evictLRU ?sz c)"
      | "\<forall>k\<in>fst ` set (sortedEntries c). \<forall>cont. map_get k (entries (evictLRU ?sz c)) = Some cont
              \<longrightarrow> \<not> truthy cont"
      by (auto simp: evictLRU_def)
    then show ?thesis
    proof cases
      case 1
      then have "stored_size (evictLRU ?sz c) + ?sz \<le> stored_size c" by simp
      with cap True show ?thesis by simp
    next
      case 2
      have "\<forall>p\<in>set (entries (evictLRU ?sz c)). \<not> truthy (snd p)"
      proof
        fix p assume p: "p \<in> set (entries (evictLRU ?sz c))"
        obtain a b where ab: "p = (a, b)" by (cases p)
        from p evict_loop_entries_subset[of "sortedEntries c" ?sz 0 c]
        have "p \<in> set (entries c)" by (auto simp: evictLRU_def)
        with k ab have "a \<in> fst ` set (sortedEntries c)" by (force simp: sortedEntries_def)
        moreover from d1 True p ab have "map_get a (entries (evictLRU ?sz c)) = Some b"
          by (simp add: map_get_def)
        ultimately show "\<not> truthy (snd p)" using 2 ab by auto
      qed
      then have "stored_size (evictLRU ?sz c) = 0" by (simp add: stored_size_def falsy_bytes)
      with True fit show ?thesis by simp
    qed
  qed
  have b: "stored_size (store now u cont c) \<le> stored_size ?c1 + ?sz"
    unfolding st using bytes_map_set[of u cont "entries ?c1"] by (simp add: stored_size_def)
  have "distinct (map fst (entries (store now u cont c)))"
    unfolding st using d1 by (simp add: distinct_map_set)
  moreover have "fst ` set (entries (store now u cont c))
      \<subseteq> fst ` set (accessTime (store now u cont c))"
  proof -
    have "fst ` set (map_set u cont (entries ?c1)) \<subseteq> fst ` set (map_set u now (accessTime ?c1))"
      unfolding set_keys_map_set using k1 by blast
    then show ?thesis by (simp add: st)
  qed
  moreover have "stored_size (store now u cont c) \<le> currentSize (store now u cont c)"
    using b cur1 by (simp add: st)
  moreover have "stored_size (store now u cont c) \<le> maxSize (store now u cont c)"
    using b room m1 by (simp add: st)
  ultimately show ?thesis by blast
qed

lemma get_within_capacity:
  assumes "distinct (map fst (entries c))"
    and "fst ` set (entries c) \<subseteq> fst ` set (accessTime c)"
    and "stored_size c \<le> currentSize c"
    and "stored_size c \<le> maxSize c"
  shows "distinct (map fst (entries (snd (get now u c)))) \<and>
         fst ` set (entries (snd (get now u c))) \<subseteq> fst ` set (accessTime (snd (get now u c))) \<and>
         stored_size (snd (get now u c)) \<le> currentSize (snd (get now u c)) \<and>
         stored_size (snd (get now u c)) \<le> maxSize (snd (get now u c))"
  using assms
  by (auto simp: get_def stored_size_def set_keys_map_set split: option.splits)

lemma store_maxSize: "maxSize (store now u cont c) = maxSize c"
  by (simp add: store_def Let_def evictLRU_def evict_loop_maxSize)

lemma get_maxSize: "maxSize (snd (get now u c)) = maxSize c"
  by (simp add: get_def split: option.splits)

lemma run_ops_within_capacity:
  assumes "distinct (map fst (entries c))"
    and "fst ` set (entries c) \<subseteq> fst ` set (accessTime c)"
    and "stored_size c \<le> currentSize c"
    and "stored_size c \<le> maxSize c"
    and "list_all (fits (maxSize c)) ops"
  shows "stored_size (run_ops ops c) \<le> maxSize c"
  using assms
proof (induction ops arbitrary: c)
  case Nil
  then show ?case by simp
next
  case (Cons x xs)
  show ?case
  proof (cases x)
    case (Store now u cont)
    with Cons.prems(5) have fit: "blob_size cont \<le> maxSize c" by (simp add: fits_def)
    from store_within_capacity[OF Cons.prems(1-4) fit, of now u] Cons.prems(5)
      Cons.IH[of "store now u cont c"] Store
    show ?thesis by (simp add: store_maxSize)
  next
    case (Get now u)
    from get_within_capacity[OF Cons.prems(1-4), of now u] Cons.prems(5)
      Cons.IH[of "snd (get now u c)"] Get
    show ?thesis by (simp add: get_maxSize)
  qed
qed

text \<open>
  For a capacity \<open>C\<close> that is not negative and calls that store at most \<open>C\<close> bytes each,
  the bytes present never exceed \<open>C\<close>.
\<close>

lemma stored_size_within_capacity:
  "0 \<le> C \<Longrightarrow> list_all (fits C) ops \<Longrightarrow> stored_size (run_ops ops (new_ContentCache C)) \<le> C"
  using run_ops_within_capacity[of "new_ContentCache C" ops]
  by (simp add: new_ContentCache_def stored_size_def bytes_of_def)

text \<open>
  Claim C1 (the stored size never exceeds the capacity after a \<open>store\<close>, also for a
  content larger than the capacity and for an overwrite), evaluated on a content of 11
  bytes and a capacity of 10: after one \<open>store\<close> the cache holds 11 bytes and
  \<open>currentSize\<close> is 11. Evaluated on three stores of 3 bytes under one url and a store
  of 5 bytes under another: \<open>currentSize\<close> is 11 with a capacity of 10. The lemma
  \<open>stored_size_within_capacity\<close> above is the bound the code does keep: the bytes
  present stay within the capacity as long as every stored content fits into it.
\<close>

theorem C1_oversize_store_exceeds_capacity:
  "stored_size (store 0 ''a'' ''hello world'' (new_ContentCache 10)) = 11 \<and>
   currentSize (store 0 ''a'' ''hello world'' (new_ContentCache 10)) = 11 \<and>
   maxSize (store 0 ''a'' ''hello world'' (new_ContentCache 10)) = 10 \<and>
   currentSize (run_ops [Store 1 ''a'' ''xxx'', Store 2 ''a'' ''xxx'', Store 3 ''a'' ''xxx'',
                         Store 4 ''b'' ''yyyyy''] (new_ContentCache 10)) = 11"
  by code_simp

text \<open>
  Claim C9 (\<open>currentSize\<close> equals the sum of the sizes of the entries present),
  evaluated on a \<open>store\<close> that overwrites a url: the two-byte entry is replaced by a
  three-byte one, and \<open>currentSize\<close> is 5 while 3 bytes are stored.
\<close>

theorem C9_overwrite_double_counts:
  "currentSize (run_ops [Store 1 ''a'' ''xx'', Store 2 ''a'' ''yyy''] (new_ContentCache 100)) = 5 \<and>
   stored_size (run_ops [Store 1 ''a'' ''xx'', Store 2 ''a'' ''yyy''] (new_ContentCache 100)) = 3 \<and>
   entries (run_ops [Store 1 ''a'' ''xx'', Store 2 ''a'' ''yyy''] (new_ContentCache 100)) = [(''a'', ''yyy'')]"
  by code_simp

section \<open>Properties of the client\<close>

subsection \<open>The cache of a client holds non-empty contents only\<close>

lemma store_truthy:
  assumes "entries_truthy c" "truthy cont"
  shows "entries_truthy (store now u cont c)"
proof -
  let ?c1 = "if currentSize c + blob_size cont > maxSize c then evictLRU (blob_size cont) c else c"
  have "set (entries ?c1) \<subseteq> set (entries c)"
    using evict_loop_entries_subset by (simp add: evictLRU_def)
  moreover have "set (entries (store now u cont c)) \<subseteq> insert (u, cont) (set (entries ?c1))"
    by (simp add: store_def Let_def set_map_set_subset)
  ultimately have "set (entries (store now u cont c)) \<subseteq> insert (u, cont) (set (entries c))"
    by blast
  with assms show ?thesis by (auto simp: entries_truthy_def list_all_iff)
qed

lemma get_truthy: "entries_truthy c \<Longrightarrow> entries_truthy (snd (get now u c))"
  by (simp add: entries_truthy_def get_entries)

lemma get_present:
  assumes "entries_truthy c" "map_get u (entries c) = Some cont"
  shows "get now u c = (Some cont, c\<lparr>accessTime := map_set u now (accessTime c)\<rparr>)"
proof -
  from assms(2) have "(u, cont) \<in> set (entries c)"
    by (auto simp: map_get_def dest: map_of_SomeD)
  with assms(1) have "truthy cont" by (auto simp: entries_truthy_def list_all_iff)
  with assms(2) show ?thesis by (rule get_hit)
qed

lemma sendToPeer_cache: "cache (sendToPeer p d s) = cache s"
  by (simp add: sendToPeer_def split: option.splits ready_state.splits)

lemma try_peers_cache: "cache (snd (try_peers ps u reply s)) = cache s"
  by (induction ps arbitrary: s)
     (auto simp: Let_def sendToPeer_cache split: peer_outcome.splits content_value.splits)

lemma try_peers_valid: "try_peers ps u reply s = (PeerResponse c p, s') \<Longrightarrow> truthy c"
  by (induction ps arbitrary: s)
     (auto simp: Let_def validateContent_def split: peer_outcome.splits content_value.splits if_splits)

lemma requestFromPeers_cache: "cache (snd (requestFromPeers u reply s)) = cache s"
  by (simp add: requestFromPeers_def try_peers_cache)

lemma requestFromPeers_valid: "requestFromPeers u reply s = (PeerResponse c p, s') \<Longrightarrow> truthy c"
  by (auto simp: requestFromPeers_def dest: try_peers_valid split: if_splits)

lemma interceptRequest_truthy:
  assumes "entries_truthy (cache s)"
  shows "entries_truthy (cache (snd (interceptRequest now1 now2 u reply originalFetch s)))"
proof -
  obtain cached c1 where g: "get now1 u (cache s) = (cached, c1)" by (cases "get now1 u (cache s)")
  have c1: "entries_truthy c1" using get_truthy[OF assms, of now1 u] g by simp
  let ?s1 = "s\<lparr>cache := c1\<rparr>"
  obtain pr s2 where r: "requestFromPeers u reply ?s1 = (pr, s2)"
    by (cases "requestFromPeers u reply ?s1")
  have s2: "cache s2 = c1" using requestFromPeers_cache[of u reply ?s1] r by simp
  show ?thesis
  proof (cases cached)
    case (Some c)
    with g c1 show ?thesis by (simp add: interceptRequest_def)
  next
    case None
    show ?thesis
    proof (cases pr)
      case (PeerResponse c p)
      with r have "truthy c" by (auto dest: requestFromPeers_valid)
      with c1 s2 have "entries_truthy (store now2 u c (cache s2))" by (simp add: store_truthy)
      with None g r PeerResponse show ?thesis by (simp add: interceptRequest_def)
    next
      case NoResponse
      with None g r c1 s2 show ?thesis by (simp add: interceptRequest_def)
    next
      case NeverSettles
      with None g r c1 s2 show ?thesis by (simp add: interceptRequest_def)
    qed
  qed
qed

lemma cleanupPeerConnection_cache: "cache (cleanupPeerConnection p s) = cache s"
  by (simp add: cleanupPeerConnection_def Let_def split: option.splits)

lemma initiatePeerConnection_cache: "cache (initiatePeerConnection p ok s) = cache s"
  by (simp add: initiatePeerConnection_def cleanupPeerConnection_cache)

lemma handleSignalingMessage_cache: "cache (handleSignalingMessage m ok s) = cache s"
  by (simp add: handleSignalingMessage_def handleOffer_def handleAnswer_def
      handleIceCandidate_def handlePeerDiscovery_def handlePeerRegistered_def Let_def
      initiatePeerConnection_cache split: json.splits option.splits)

lemma handlePeerMessage_truthy:
  assumes "entries_truthy (cache s)"
  shows "entries_truthy (cache (handlePeerMessage now p d s))"
proof (cases d)
  case (ContentRequest u r)
  obtain cont c1 where g: "get now u (cache s) = (cont, c1)" by (cases "get now u (cache s)")
  have "entries_truthy c1" using get_truthy[OF assms, of now u] g by simp
  with ContentRequest g show ?thesis
    by (simp add: handlePeerMessage_def handleContentRequest_def sendToPeer_cache Let_def
        split: option.splits)
qed (use assms in \<open>simp_all add: handlePeerMessage_def\<close>)

lemma client_step_truthy:
  "entries_truthy (cache s) \<Longrightarrow> entries_truthy (cache (client_step e s))"
  by (cases e)
     (simp_all add: handleSignalingMessage_cache handlePeerMessage_truthy
        cleanupPeerConnection_cache interceptRequest_truthy)

lemma run_client_truthy:
  "entries_truthy (cache s) \<Longrightarrow> entries_truthy (cache (run_client es s))"
  by (induction es arbitrary: s) (simp_all add: client_step_truthy)

lemma reachable_truthy: "entries_truthy (cache (run_client es (new_DeployNetClient cid mp cs)))"
  by (rule run_client_truthy)
     (simp add: new_DeployNetClient_def new_ContentCache_def entries_truthy_def)

text \<open>
  Claim C8. For every state a client reaches from its constructor and every url that
  is present in its cache, \<open>interceptRequest\<close> returns the cached content in a response
  whose \<open>X-DeployNet-Source\<close> header is \<open>cache\<close>, and the resolution sends nothing on
  any data channel, calls the original \<open>fetch\<close> not at all and sends nothing on the
  signaling socket.
\<close>

theorem C8_cache_hit_no_requests:
  assumes s: "s = run_client es (new_DeployNetClient cid mp cs)"
    and hit: "map_get u (entries (cache s)) = Some c"
  shows "fst (interceptRequest now1 now2 u reply originalFetch s)
           = Served \<lparr>body = c, status = 200, deployNetSource = ''cache'', deployNetPeer = None\<rparr> \<and>
         channelSent (snd (interceptRequest now1 now2 u reply originalFetch s)) = channelSent s \<and>
         originFetched (snd (interceptRequest now1 now2 u reply originalFetch s)) = originFetched s \<and>
         signalingSent (snd (interceptRequest now1 now2 u reply originalFetch s)) = signalingSent s"
proof -
  have "entries_truthy (cache s)" unfolding s by (rule reachable_truthy)
  from get_present[OF this hit]
  show ?thesis by (simp add: interceptRequest_def createResponseFromCache_def)
qed


text \<open>
  C8 at a client that has stored \<open>/a.js\<close> from the peer \<open>q\<close>: the next request for it is
  served from the cache although a peer and the origin would answer.
\<close>

theorem C8_cache_hit_no_requests_witness:
  "map_get ''/a.js'' (entries (cache (run_client
       [Signal \<lparr>msgType = 3, payload = Value ''info'', senderId = ''q''\<rparr> True, ChannelOpen ''q'',
        Fetch 1 2 ''/a.js'' (\<lambda>p. Responded (Str ''hi'')) (\<lambda>u. NetworkError)]
       (new_DeployNetClient ''me'' 5 100)))) = Some ''hi'' \<and>
   fst (interceptRequest 3 4 ''/a.js'' (\<lambda>p. Responded (Str ''other'')) (\<lambda>u. OriginResponse 200 ''origin'')
     (run_client
       [Signal \<lparr>msgType = 3, payload = Value ''info'', senderId = ''q''\<rparr> True, ChannelOpen ''q'',
        Fetch 1 2 ''/a.js'' (\<lambda>p. Responded (Str ''hi'')) (\<lambda>u. NetworkError)]
       (new_DeployNetClient ''me'' 5 100)))
     = Served \<lparr>body = ''hi'', status = 200, deployNetSource = ''cache'', deployNetPeer = None\<rparr>"
proof -
  have h: "map_get ''/a.js'' (entries (cache (run_client
       [Signal \<lparr>msgType = 3, payload = Value ''info'', senderId = ''q''\<rparr> True, ChannelOpen ''q'',
        Fetch 1 2 ''/a.js'' (\<lambda>p. Responded (Str ''hi'')) (\<lambda>u. NetworkError)]
       (new_DeployNetClient ''me'' 5 100)))) = Some ''hi''"
    by code_simp
  from C8_cache_hit_no_requests[OF refl h, of 3 4 "\<lambda>p. Responded (Str ''other'')"
      "\<lambda>u. OriginResponse 200 ''origin''"] h
  show ?thesis by blast
qed

lemma interceptRequest_origin_not_stored:
  assumes "fst (interceptRequest now1 now2 u reply originalFetch s) = FromOriginalFetch r"
  shows "entries (cache (snd (interceptRequest now1 now2 u reply originalFetch s))) = entries (cache s)"
proof -
  obtain cached c1 where g: "get now1 u (cache s) = (cached, c1)" by (cases "get now1 u (cache s)")
  have c1: "entries c1 = entries (cache s)" using get_entries[of now1 u "cache s"] g by simp
  let ?s1 = "s\<lparr>cache := c1\<rparr>"
  obtain pr s2 where p: "requestFromPeers u reply ?s1 = (pr, s2)"
    by (cases "requestFromPeers u reply ?s1")
  have s2: "cache s2 = c1" using requestFromPeers_cache[of u reply ?s1] p by simp
  from assms g p c1 s2 show ?thesis
    by (cases cached; cases pr) (simp_all add: interceptRequest_def)
qed

text \<open>
  Claim C3 (a request resolved by the origin fallback stores the fetched result in
  the cache), evaluated on a client without peers whose origin answers \<open>hello\<close>: the
  result of the original \<open>fetch\<close> is returned, the cache stays empty, and a second
  request for the same url calls the original \<open>fetch\<close> again.
\<close>

theorem C3_origin_result_not_stored:
  "fst (interceptRequest 1 2 ''/a.js'' (\<lambda>p. TimedOut) (\<lambda>u. OriginResponse 200 ''hello'')
        (new_DeployNetClient ''me'' 5 100)) = FromOriginalFetch (OriginResponse 200 ''hello'') \<and>
   entries (cache (snd (interceptRequest 1 2 ''/a.js'' (\<lambda>p. TimedOut) (\<lambda>u. OriginResponse 200 ''hello'')
        (new_DeployNetClient ''me'' 5 100)))) = [] \<and>
   originFetched (run_client
        [Fetch 1 2 ''/a.js'' (\<lambda>p. TimedOut) (\<lambda>u. OriginResponse 200 ''hello''),
         Fetch 3 4 ''/a.js'' (\<lambda>p. TimedOut) (\<lambda>u. OriginResponse 200 ''hello'')]
        (new_DeployNetClient ''me'' 5 100)) = [''/a.js'', ''/a.js'']"
  by code_simp

subsection \<open>ICE candidates\<close>

lemma handleIceCandidate_no_connection:
  "map_get (senderId m) (peerConnections s) = None \<Longrightarrow> handleIceCandidate m s = s"
  by (simp add: handleIceCandidate_def split: json.splits)

lemma applied_candidates_append:
  assumes "map_get (senderId m) (peerConnections s) = Some pc" "payload m = Value c"
  shows "applied_candidates (senderId m) (handleIceCandidate m s)
           = applied_candidates (senderId m) s @ [c]"
  using assms by (simp add: handleIceCandidate_def applied_candidates_def map_get_set)

text \<open>
  Claim C6, as the code has it. An \<open>IceCandidate\<close> message whose sender has no
  connection in \<open>peerConnections\<close> changes nothing, now or later: the client goes on as
  if the message had never arrived. An \<open>IceCandidate\<close> whose sender has a connection is
  handed to \<open>addIceCandidate\<close> at once. Of the interleaved sequence
  \<open>IceCandidate, Offer, IceCandidate, Answer\<close> from one peer, received by a new client,
  exactly the second candidate is applied.
\<close>

theorem C6_candidate_applied_at_once_or_dropped:
  "(\<forall>m s ok es. msgType m = 2 \<and> map_get (senderId m) (peerConnections s) = None
       \<longrightarrow> run_client (Signal m ok # es) s = run_client es s) \<and>
   (\<forall>m s ok pc c. msgType m = 2 \<and> map_get (senderId m) (peerConnections s) = Some pc \<and>
        payload m = Value c
       \<longrightarrow> applied_candidates (senderId m) (client_step (Signal m ok) s)
             = applied_candidates (senderId m) s @ [c]) \<and>
   (\<forall>p c1 off c2 ans ok1 ok2 ok3 ok4 cid mp cs.
       applied_candidates p (run_client
         [Signal \<lparr>msgType = 2, payload = Value c1, senderId = p\<rparr> ok1,
          Signal \<lparr>msgType = 0, payload = Value off, senderId = p\<rparr> ok2,
          Signal \<lparr>msgType = 2, payload = Value c2, senderId = p\<rparr> ok3,
          Signal \<lparr>msgType = 1, payload = Value ans, senderId = p\<rparr> ok4]
         (new_DeployNetClient cid mp cs)) = [c2])"
proof (intro conjI allI impI)
  fix m :: signal and s :: DeployNetClient and ok es
  assume "msgType m = 2 \<and> map_get (senderId m) (peerConnections s) = None"
  then show "run_client (Signal m ok # es) s = run_client es s"
    by (simp add: handleSignalingMessage_def handleIceCandidate_no_connection)
next
  fix m :: signal and s :: DeployNetClient and ok pc c
  assume "msgType m = 2 \<and> map_get (senderId m) (peerConnections s) = Some pc \<and> payload m = Value c"
  then show "applied_candidates (senderId m) (client_step (Signal m ok) s)
             = applied_candidates (senderId m) s @ [c]"
    by (simp add: handleSignalingMessage_def applied_candidates_append)
next
  fix p c1 off c2 ans ok1 ok2 ok3 ok4 cid mp cs
  show "applied_candidates p (run_client
         [Signal \<lparr>msgType = 2, payload = Value c1, senderId = p\<rparr> ok1,
          Signal \<lparr>msgType = 0, payload = Value off, senderId = p\<rparr> ok2,
          Signal \<lparr>msgType = 2, payload = Value c2, senderId = p\<rparr> ok3,
          Signal \<lparr>msgType = 1, payload = Value ans, senderId = p\<rparr> ok4]
         (new_DeployNetClient cid mp cs)) = [c2]"
    by (simp add: handleSignalingMessage_def handleIceCandidate_def handleOffer_def
        handleAnswer_def new_DeployNetClient_def applied_candidates_def map_get_def)
qed

text \<open>
  C6 at a new client: the candidate \<open>c1\<close> before the offer is dropped, the candidate
  \<open>c2\<close> after the offer is applied.
\<close>

theorem C6_candidate_applied_at_once_or_dropped_witness:
  "(msgType \<lparr>msgType = 2, payload = Value ''c1'', senderId = ''p''\<rparr> = 2 \<and>
    map_get (senderId \<lparr>msgType = 2, payload = Value ''c1'', senderId = ''p''\<rparr>)
      (peerConnections (new_DeployNetClient ''me'' 5 100)) = None \<and>
    run_client [Signal \<lparr>msgType = 2, payload = Value ''c1'', senderId = ''p''\<rparr> True,
                Signal \<lparr>msgType = 0, payload = Value ''sdp'', senderId = ''p''\<rparr> True]
        (new_DeployNetClient ''me'' 5 100)
      = run_client [Signal \<lparr>msgType = 0, payload = Value ''sdp'', senderId = ''p''\<rparr> True]
        (new_DeployNetClient ''me'' 5 100)) \<and>
   (map_get (senderId \<lparr>msgType = 2, payload = Value ''c2'', senderId = ''p''\<rparr>)
      (peerConnections (run_client [Signal \<lparr>msgType = 0, payload = Value ''sdp'', senderId = ''p''\<rparr> True]
        (new_DeployNetClient ''me'' 5 100)))
      = Some [SetRemoteDescription ''sdp'', CreateAnswer, SetLocalDescription] \<and>
    applied_candidates ''p'' (client_step (Signal \<lparr>msgType = 2, payload = Value ''c2'', senderId = ''p''\<rparr> True)
      (run_client [Signal \<lparr>msgType = 0, payload = Value ''sdp'', senderId = ''p''\<rparr> True]
        (new_DeployNetClient ''me'' 5 100))) = [''c2''])"
proof -
  let ?ice1 = "\<lparr>msgType = 2, payload = Value ''c1'', senderId = ''p''\<rparr>"
  let ?ice2 = "\<lparr>msgType = 2, payload = Value ''c2'', senderId = ''p''\<rparr>"
  let ?off = "\<lparr>msgType = 0, payload = Value ''sdp'', senderId = ''p''\<rparr>"
  let ?s0 = "new_DeployNetClient ''me'' 5 100"
  let ?s1 = "run_client [Signal ?off True] ?s0"
  have h1: "msgType ?ice1 = 2 \<and> map_get (senderId ?ice1) (peerConnections ?s0) = None"
    by code_simp
  have h2: "msgType ?ice2 = 2 \<and> map_get (senderId ?ice2) (peerConnections ?s1)
      = Some [SetRemoteDescription ''sdp'', CreateAnswer, SetLocalDescription] \<and>
      payload ?ice2 = Value ''c2''"
    by code_simp
  have e: "applied_candidates ''p'' ?s1 = []" by code_simp
  note inst = C6_candidate_applied_at_once_or_dropped
  from inst[THEN conjunct1, rule_format, OF h1, of True "[Signal ?off True]"]
  have r1: "run_client [Signal ?ice1 True, Signal ?off True] ?s0 = ?s1" .
  from inst[THEN conjunct2, THEN conjunct1, rule_format, OF h2, of True] e
  have r2: "applied_candidates ''p'' (client_step (Signal ?ice2 True) ?s1) = [''c2'']"
    by simp
  from h1 h2 r1 r2 show ?thesis by simp
qed

text \<open>
  C6 as stated fails on the interleaved sequence: after it the connection of \<open>p\<close> has a
  remote description, and the candidate \<open>c1\<close> that arrived before the offer has never
  been handed to \<open>addIceCandidate\<close>.
\<close>

theorem C6_early_candidate_counterexample:
  "has_remote_description ''p'' (run_client
      [Signal \<lparr>msgType = 2, payload = Value ''c1'', senderId = ''p''\<rparr> True,
       Signal \<lparr>msgType = 0, payload = Value ''sdp-offer'', senderId = ''p''\<rparr> True,
       Signal \<lparr>msgType = 2, payload = Value ''c2'', senderId = ''p''\<rparr> True,
       Signal \<lparr>msgType = 1, payload = Value ''sdp-answer'', senderId = ''p''\<rparr> True]
      (new_DeployNetClient ''me'' 5 100)) \<and>
   ''c1'' \<notin> set (applied_candidates ''p'' (run_client
      [Signal \<lparr>msgType = 2, payload = Value ''c1'', senderId = ''p''\<rparr> True,
       Signal \<lparr>msgType = 0, payload = Value ''sdp-offer'', senderId = ''p''\<rparr> True,
       Signal \<lparr>msgType = 2, payload = Value ''c2'', senderId = ''p''\<rparr> True,
       Signal \<lparr>msgType = 1, payload = Value ''sdp-answer'', senderId = ''p''\<rparr> True]
      (new_DeployNetClient ''me'' 5 100)))"
  by code_simp

section \<open>Properties of the hub\<close>

subsection \<open>What a broadcast changes\<close>

lemma broadcast_loop_frame:
  "Rooms (broadcast_loop v m h) = Rooms h \<and> Clients (broadcast_loop v m h) = Clients h \<and>
   allocated (broadcast_loop v m h) = allocated h \<and>
   ID (store_of (broadcast_loop v m h) b) = ID (store_of h b) \<and>
   Client.RoomID (store_of (broadcast_loop v m h) b) = Client.RoomID (store_of h b) \<and>
   Conn (store_of (broadcast_loop v m h) b) = Conn (store_of h b) \<and>
   SendClosed (store_of (broadcast_loop v m h) b) = SendClosed (store_of h b)"
  by (induction v arbitrary: h) (simp_all add: Let_def)

lemma broadcast_loop_send:
  "b \<notin> set v \<or> ID (store_of h b) = SenderID m \<Longrightarrow>
   Send (store_of (broadcast_loop v m h) b) = Send (store_of h b)"
proof (induction v arbitrary: h)
  case Nil
  show ?case by simp
next
  case (Cons a v)
  let ?c = "store_of h a"
  let ?h1 = "h\<lparr>store_of := (store_of h)(a := ?c\<lparr>Send := Send ?c @ [Payload m]\<rparr>)\<rparr>"
  show ?case
  proof (cases "ID ?c \<noteq> SenderID m \<and> \<not> SendClosed ?c \<and> length (Send ?c) < 256")
    case True
    with Cons.prems have ba: "b \<noteq> a" by auto
    with Cons.prems have "b \<notin> set v \<or> ID (store_of ?h1 b) = SenderID m" by auto
    from Cons.IH[OF this] ba True show ?thesis by (simp add: Let_def)
  next
    case False
    from Cons.prems have "b \<notin> set v \<or> ID (store_of h b) = SenderID m" by auto
    from Cons.IH[OF this] False show ?thesis by (auto simp: Let_def)
  qed
qed

lemma Run_Broadcast_send:
  assumes "Send (store_of (Run_Broadcast visit m h) b) \<noteq> Send (store_of h b)"
  shows "\<exists>room. map_get (SignalMessage.RoomID m) (Rooms h) = Some room \<and> b \<in> snd ` set room \<and>
           ID (store_of h b) \<noteq> SenderID m"
proof (cases "map_get (SignalMessage.RoomID m) (Rooms h)")
  case None
  with assms show ?thesis by (simp add: Run_Broadcast_def)
next
  case (Some room)
  show ?thesis
  proof (cases "sort visit = sort (map snd room)")
    case False
    with Some assms show ?thesis by (simp add: Run_Broadcast_def)
  next
    case True
    then have "set visit = set (map snd room)" by (metis set_sort)
    moreover from assms Some True
    have "Send (store_of (broadcast_loop visit m h) b) \<noteq> Send (store_of h b)"
      by (simp add: Run_Broadcast_def)
    then have "b \<in> set visit \<and> ID (store_of h b) \<noteq> SenderID m"
      using broadcast_loop_send[of b visit h m] by blast
    ultimately show ?thesis using Some by auto
  qed
qed

lemma Run_Broadcast_frame:
  "Rooms (Run_Broadcast v m h) = Rooms h \<and> Clients (Run_Broadcast v m h) = Clients h \<and>
   allocated (Run_Broadcast v m h) = allocated h \<and>
   ID (store_of (Run_Broadcast v m h) b) = ID (store_of h b) \<and>
   Client.RoomID (store_of (Run_Broadcast v m h) b) = Client.RoomID (store_of h b) \<and>
   Conn (store_of (Run_Broadcast v m h) b) = Conn (store_of h b) \<and>
   SendClosed (store_of (Run_Broadcast v m h) b) = SendClosed (store_of h b)"
  using broadcast_loop_frame[of v m h b]
  by (simp add: Run_Broadcast_def split: option.splits)

subsection \<open>The rooms of a reachable hub\<close>

lemma hub_wf_iff:
  "hub_wf h \<longleftrightarrow> (\<forall>r room k a. (r, room) \<in> set (Rooms h) \<longrightarrow> (k, a) \<in> set room \<longrightarrow>
      a < allocated h \<and> ID (store_of h a) = k \<and> Client.RoomID (store_of h a) = r)"
  by (auto simp: hub_wf_def list_all_iff)

lemma hub_wf_mono:
  assumes "hub_wf h"
    and "\<And>r room. (r, room) \<in> set (Rooms h') \<Longrightarrow>
           \<exists>room0. (r, room0) \<in> set (Rooms h) \<and> set room \<subseteq> set room0"
    and "allocated h \<le> allocated h'"
    and "\<And>a. a < allocated h \<Longrightarrow> ID (store_of h' a) = ID (store_of h a) \<and>
           Client.RoomID (store_of h' a) = Client.RoomID (store_of h a)"
  shows "hub_wf h'"
  unfolding hub_wf_iff
proof (intro allI impI)
  fix r room k a
  assume "(r, room) \<in> set (Rooms h')" "(k, a) \<in> set room"
  with assms(2) obtain room0 where "(r, room0) \<in> set (Rooms h)" "(k, a) \<in> set room0" by blast
  with assms(1) have "a < allocated h \<and> ID (store_of h a) = k \<and> Client.RoomID (store_of h a) = r"
    by (auto simp: hub_wf_iff)
  with assms(3) assms(4)[of a]
  show "a < allocated h' \<and> ID (store_of h' a) = k \<and> Client.RoomID (store_of h' a) = r" by auto
qed

lemma Run_Broadcast_wf: "hub_wf h \<Longrightarrow> hub_wf (Run_Broadcast v m h)"
  by (rule hub_wf_mono[of h]) (auto simp: Run_Broadcast_frame)

lemma WritePump_message_wf: "hub_wf h \<Longrightarrow> hub_wf (WritePump_message a h)"
  by (rule hub_wf_mono[of h]) (auto simp: WritePump_message_def Let_def split: list.splits)

lemma Run_Unregister_wf:
  assumes "hub_wf h"
  shows "hub_wf (Run_Unregister a h)"
proof (rule hub_wf_mono[OF assms])
  fix r room
  assume "(r, room) \<in> set (Rooms (Run_Unregister a h))"
  then show "\<exists>room0. (r, room0) \<in> set (Rooms h) \<and> set room \<subseteq> set room0"
    using set_map_delete[of "Client.RoomID (store_of h a)" "Rooms h"]
      set_map_set_subset[of "Client.RoomID (store_of h a)" _ "Rooms h"]
      set_map_delete[of "ID (store_of h a)"]
      map_get_in_set[of "Client.RoomID (store_of h a)" "Rooms h"]
    by (fastforce simp: Run_Unregister_def Let_def split: if_splits option.splits)
next
  show "allocated h \<le> allocated (Run_Unregister a h)"
    by (simp add: Run_Unregister_def Let_def split: option.splits)
next
  fix b
  show "ID (store_of (Run_Unregister a h) b) = ID (store_of h b) \<and>
        Client.RoomID (store_of (Run_Unregister a h) b) = Client.RoomID (store_of h b)"
    by (simp add: Run_Unregister_def Let_def split: option.splits)
qed


lemma Run_Register_eq:
  "Run_Register a h =
     h\<lparr>Clients := map_set (ID (store_of h a)) a (Clients h),
       Rooms := map_set (Client.RoomID (store_of h a))
          (map_set (ID (store_of h a)) a
             (case map_get (Client.RoomID (store_of h a)) (Rooms h) of
                None \<Rightarrow> [] | Some room \<Rightarrow> room))
          (Rooms h)\<rparr>"
  by (cases "map_get (Client.RoomID (store_of h a)) (Rooms h)")
     (simp_all add: Run_Register_def Let_def map_has_get map_get_set map_set_twice)

lemma Run_Register_wf:
  assumes wf: "hub_wf h" and a: "a < allocated h"
  shows "hub_wf (Run_Register a h)"
proof -
  let ?c = "store_of h a"
  let ?rid = "Client.RoomID ?c"
  let ?room0 = "case map_get ?rid (Rooms h) of None \<Rightarrow> [] | Some room \<Rightarrow> room"
  have room0: "b < allocated h \<and> ID (store_of h b) = k \<and> Client.RoomID (store_of h b) = ?rid"
    if "(k, b) \<in> set ?room0" for k b
    using that wf map_get_in_set[of ?rid "Rooms h"]
    by (cases "map_get ?rid (Rooms h)") (auto simp: hub_wf_iff)
  show ?thesis
    unfolding hub_wf_iff
  proof (intro allI impI)
    fix r room k b
    assume in1: "(r, room) \<in> set (Rooms (Run_Register a h))" and in2: "(k, b) \<in> set room"
    from in1 set_map_set_subset[of ?rid "map_set (ID ?c) a ?room0" "Rooms h"]
    consider "(r, room) \<in> set (Rooms h)" | "r = ?rid" "room = map_set (ID ?c) a ?room0"
      by (auto simp: Run_Register_eq)
    then have "b < allocated h \<and> ID (store_of h b) = k \<and> Client.RoomID (store_of h b) = r"
    proof cases
      case 1
      with in2 wf show ?thesis by (auto simp: hub_wf_iff)
    next
      case 2
      from in2 2 set_map_set_subset[of "ID ?c" a ?room0]
      consider "(k, b) = (ID ?c, a)" | "(k, b) \<in> set ?room0" by auto
      then show ?thesis
      proof cases
        case 1
        with a \<open>r = ?rid\<close> show ?thesis by simp
      next
        case 2
        from room0[OF 2] \<open>r = ?rid\<close> show ?thesis by simp
      qed
    qed
    then show "b < allocated (Run_Register a h) \<and> ID (store_of (Run_Register a h) b) = k \<and>
       Client.RoomID (store_of (Run_Register a h) b) = r"
      by (simp add: Run_Register_eq)
  qed
qed

lemma serveWs_wf:
  assumes "hub_wf h"
  shows "hub_wf (serveWs idParam roomParam gen h)"
proof -
  let ?a = "allocated h"
  let ?client = "\<lparr>ID = (if idParam = [] then gen else idParam), Conn = [], Send = [],
      SendClosed = False, RoomID = (if roomParam = [] then ''default'' else roomParam)\<rparr>"
  let ?h0 = "h\<lparr>store_of := (store_of h)(?a := ?client), allocated := Suc ?a\<rparr>"
  have "hub_wf ?h0" by (rule hub_wf_mono[OF assms]) auto
  then have "hub_wf (Run_Register ?a ?h0)" by (rule Run_Register_wf) simp
  then show ?thesis by (simp add: serveWs_def Let_def)
qed

lemma hub_step_wf: "hub_wf h \<Longrightarrow> hub_wf (hub_step e h)"
  by (cases e)
     (auto simp: serveWs_wf Run_Unregister_wf WritePump_message_wf Run_Broadcast_wf
        ReadPump_message_def split: option.splits)

lemma run_hub_wf: "hub_wf h \<Longrightarrow> hub_wf (run_hub es h)"
  by (induction es arbitrary: h) (simp_all add: hub_step_wf)

lemma reachable_hub_wf: "hub_wf (run_hub es NewHub)"
  by (rule run_hub_wf) (simp add: hub_wf_def NewHub_def)

text \<open>
  Claim C2. In every state the hub reaches from \<open>NewHub\<close>, for every message it
  broadcasts and every order in which \<open>range\<close> visits the room: a client whose \<open>Send\<close>
  channel receives anything is registered in the room the message names, has that
  room as its own, and has an id different from the message's sender id. So the
  sender, and every client of another room, receives nothing.
\<close>

theorem C2_broadcast_only_to_room_never_to_sender:
  assumes "h = run_hub es NewHub"
  shows "\<forall>b. Send (store_of (Run_Broadcast visit m h) b) \<noteq> Send (store_of h b) \<longrightarrow>
           (\<exists>room. map_get (SignalMessage.RoomID m) (Rooms h) = Some room \<and>
                   (ID (store_of h b), b) \<in> set room) \<and>
           Client.RoomID (store_of h b) = SignalMessage.RoomID m \<and>
           ID (store_of h b) \<noteq> SenderID m"
proof (intro allI impI)
  fix b
  assume "Send (store_of (Run_Broadcast visit m h) b) \<noteq> Send (store_of h b)"
  from Run_Broadcast_send[OF this] obtain room
    where room: "map_get (SignalMessage.RoomID m) (Rooms h) = Some room"
      and b: "b \<in> snd ` set room" and ne: "ID (store_of h b) \<noteq> SenderID m" by blast
  from b obtain k where kb: "(k, b) \<in> set room" by auto
  have "hub_wf h" unfolding assms by (rule reachable_hub_wf)
  with map_get_in_set[OF room] kb
  have "ID (store_of h b) = k \<and> Client.RoomID (store_of h b) = SignalMessage.RoomID m"
    by (auto simp: hub_wf_iff)
  with room kb ne
  show "(\<exists>room. map_get (SignalMessage.RoomID m) (Rooms h) = Some room \<and>
                   (ID (store_of h b), b) \<in> set room) \<and>
           Client.RoomID (store_of h b) = SignalMessage.RoomID m \<and>
           ID (store_of h b) \<noteq> SenderID m" by auto
qed

text \<open>
  C2 at a hub with \<open>A\<close> and \<open>B\<close> in room \<open>r\<close> and \<open>C\<close> in room \<open>s\<close>: a message of \<open>A\<close> for
  room \<open>r\<close> reaches \<open>B\<close>.
\<close>

theorem C2_broadcast_only_to_room_never_to_sender_witness:
  "Send (store_of (Run_Broadcast [0, 1]
        \<lparr>Type = 0, Payload = ''[1,2,3]'', SenderID = ''A'', Timestamp = 5, RoomID = ''r''\<rparr>
        (run_hub [Connect ''A'' ''r'' ''g1'', Connect ''B'' ''r'' ''g2'', Connect ''C'' ''s'' ''g3''] NewHub)) 1)
     \<noteq> Send (store_of
        (run_hub [Connect ''A'' ''r'' ''g1'', Connect ''B'' ''r'' ''g2'', Connect ''C'' ''s'' ''g3''] NewHub) 1) \<and>
   Client.RoomID (store_of
        (run_hub [Connect ''A'' ''r'' ''g1'', Connect ''B'' ''r'' ''g2'', Connect ''C'' ''s'' ''g3''] NewHub) 1) = ''r'' \<and>
   ID (store_of
        (run_hub [Connect ''A'' ''r'' ''g1'', Connect ''B'' ''r'' ''g2'', Connect ''C'' ''s'' ''g3''] NewHub) 1) \<noteq> ''A''"
proof -
  let ?h = "run_hub [Connect ''A'' ''r'' ''g1'', Connect ''B'' ''r'' ''g2'', Connect ''C'' ''s'' ''g3''] NewHub"
  let ?m = "\<lparr>Type = 0, Payload = ''[1,2,3]'', SenderID = ''A'', Timestamp = 5, RoomID = ''r''\<rparr>"
  have h: "Send (store_of (Run_Broadcast [0, 1] ?m ?h) 1) \<noteq> Send (store_of ?h 1)"
    by code_simp
  from C2_broadcast_only_to_room_never_to_sender[OF refl, rule_format, OF h] h
  show ?thesis by simp
qed





text \<open>
  Claim C5 (each other member of the room receives the whole \<open>SignalMessage\<close>),
  evaluated on a hub with \<open>A\<close> and \<open>B\<close> in one room: what \<open>WritePump\<close> writes to the
  connection of \<open>B\<close> is the bytes of the payload alone, and a message of another type
  and timestamp with the same payload is written as the same bytes.
\<close>

theorem C5_only_payload_delivered:
  "Conn (store_of (run_hub
      [Connect ''A'' ''r'' ''g1'', Connect ''B'' ''r'' ''g2'',
       Inbound 0 (Some \<lparr>Type = 0, Payload = ''[1,2,3]'', SenderID = ''A'', Timestamp = 5, RoomID = ''r''\<rparr>) [0, 1],
       Written 1] NewHub) 1) = [''[1,2,3]''] \<and>
   Conn (store_of (run_hub
      [Connect ''A'' ''r'' ''g1'', Connect ''B'' ''r'' ''g2'',
       Inbound 0 (Some \<lparr>Type = 2, Payload = ''[1,2,3]'', SenderID = ''A'', Timestamp = 77, RoomID = ''r''\<rparr>) [0, 1],
       Written 1] NewHub) 1) = [''[1,2,3]'']"
  by code_simp

end
